theory Spec2Isabelle
  imports Main "HOL-Library.Sublist"
begin

section \<open>The gallery component of \<open>src/NftGallery.tsx\<close>\<close>

text \<open>
  \<open>NftGallery\<close> is a React function component. Its state is the six \<open>useState\<close> cells,
  the URL fragment it reads and writes (\<open>window.location.hash\<close>), and the calls of
  \<open>loadAssets\<close> that are suspended at an \<open>await\<close>. Everything that happens to the
  component is an event: a promise settles, a sentinel reports its visibility, the button
  is clicked, a key is pressed. \<open>step\<close> runs the handler of one event to completion (the
  state setters it calls and the effects React re-runs because of them), as the single
  JavaScript thread does.
\<close>

subsection \<open>Data\<close>

text \<open>
  \<open>OpenseaAsset\<close> comes from \<open>./types/OpenseaAsset\<close>; the component reads \<open>asset.id\<close>,
  \<open>asset.asset_contract.address\<close> and \<open>asset.token_id\<close> only.
\<close>

record OpenseaAsset =
  asset_id :: nat
  asset_contract_address :: string
  token_id :: string

text \<open>
  The props that decide behaviour (the others only choose class names and styles). An
  optional prop that was not passed is \<open>None\<close>.
\<close>

record NftGalleryProps =
  ownerAddress :: string
  contractAddress :: string
  devnet :: bool
  showcaseMode :: bool
  showcaseItemIds :: "string list option"
  hasLoadMoreButton :: bool

text \<open>
  One gallery: its props, and the two imports of \<open>./utils\<close> and \<open>./api\<close> that the
  component consults without defining them, taken as parameters: the predicate
  \<open>isEnsDomain\<close> and the page size \<open>OPENSEA_API_OFFSET\<close>. A gallery keeps its props for
  the whole of a run: a run is the life of the component under one set of props.
\<close>

record gallery = NftGalleryProps +
  isEnsDomain :: "string \<Rightarrow> bool"
  OPENSEA_API_OFFSET :: nat

text \<open>The three remote calls of \<open>./api\<close>, with their arguments.\<close>

datatype request =
    resolveEnsDomain string
  | fetchOpenseaAssets string nat
  | fetchOpenseaAssetsByContract string string bool nat

text \<open>
  A call of \<open>loadAssets\<close> suspended at an \<open>await\<close>: the variables of its closure that the
  rest of the body reads, and the request whose promise it waits for. \<open>inv_assets\<close> is
  \<open>assets\<close> as it was in the render that started the call.
\<close>

record invocation =
  inv_assets :: "OpenseaAsset list"
  inv_contractAddress :: string
  inv_devnet :: bool
  inv_offset :: nat
  inv_awaits :: request

record world =
  assets :: "OpenseaAsset list"
  showcaseAssets :: "OpenseaAsset list"
  currentOffset :: nat
  canLoadMore :: bool
  isLoading :: bool
  lightboxIndex :: int
  location_hash :: string
  in_flight :: "invocation list"
  requests :: "request list"
  triggered :: "nat list"

text \<open>
  \<open>requests\<close> logs every remote call in the order it was issued. \<open>triggered\<close> holds the
  positions of the sentinels whose \<open>InView\<close> has reported \<open>true\<close>: with \<open>triggerOnce\<close> it
  stops observing then.
\<close>

datatype event =
    Resolved nat string
  | Fetched nat "OpenseaAsset list"
  | Rejected nat
  | InViewChange nat bool
  | LoadMoreClick
  | Keydown string
  | SetLightboxIndex int
  | HashChange string

text \<open>
  \<open>Resolved i a\<close>: the \<open>resolveEnsDomain\<close> promise of the \<open>i\<close>-th suspended call fulfils
  with \<open>a\<close>. \<open>Fetched i p\<close>: its fetch promise fulfils with the page \<open>p\<close>. \<open>Rejected i\<close>: the
  promise it waits for rejects. \<open>InViewChange k v\<close>: the sentinel at position \<open>k\<close> calls
  \<open>onChange(v)\<close>. \<open>SetLightboxIndex\<close> is the setter handed to \<open>GalleryItem\<close>, \<open>HashChange\<close>
  any change of the fragment from outside the component.
\<close>

subsection \<open>Strings\<close>

fun includes_string :: "string \<Rightarrow> string \<Rightarrow> bool" where
  "includes_string [] sub = (sub = [])"
| "includes_string (c # cs) sub = (prefix sub (c # cs) \<or> includes_string cs sub)"

definition digit_char :: "nat \<Rightarrow> char" where
  "digit_char d = ''0123456789'' ! d"

function toString_nat :: "nat \<Rightarrow> string" where
  "toString_nat n = (if n < 10 then [digit_char n] else toString_nat (n div 10) @ [digit_char (n mod 10)])"
  by pat_completeness auto
termination
  by (relation "measure (\<lambda>n. n)") auto

declare toString_nat.simps [simp del]

definition toString :: "int \<Rightarrow> string" where
  "toString i = (if i < 0 then CHR ''-'' # toString_nat (nat (- i)) else toString_nat (nat i))"

subsection \<open>\<open>loadAssets\<close> (lines 131 to 150)\<close>

definition page_request :: "string \<Rightarrow> bool \<Rightarrow> nat \<Rightarrow> string \<Rightarrow> request" where
  "page_request contractAddress' devnet' offset resolvedOwner =
     (if contractAddress' = []
      then fetchOpenseaAssets resolvedOwner offset
      else fetchOpenseaAssetsByContract resolvedOwner contractAddress' devnet' offset)"

text \<open>
  \<open>loadAssets\<close> up to its first \<open>await\<close>. For an ENS name that is the resolution; otherwise
  \<open>resolvedOwner\<close> is the owner as given and the call runs on to the fetch.
\<close>

definition loadAssets :: "gallery \<Rightarrow> string \<Rightarrow> string \<Rightarrow> bool \<Rightarrow> nat \<Rightarrow> world \<Rightarrow> world" where
  "loadAssets g ownerAddress' contractAddress' devnet' offset w =
     (let w1 = (if length (assets w) = 0 then w\<lparr>isLoading := True\<rparr> else w);
          r = (if isEnsDomain g ownerAddress'
               then resolveEnsDomain ownerAddress'
               else page_request contractAddress' devnet' offset ownerAddress');
          call = \<lparr>inv_assets = assets w, inv_contractAddress = contractAddress',
                 inv_devnet = devnet', inv_offset = offset, inv_awaits = r\<rparr>
      in w1\<lparr>in_flight := in_flight w1 @ [call], requests := requests w1 @ [r]\<rparr>)"

text \<open>The call resumes with the resolved address and issues the fetch.\<close>

definition loadAssets_resolved :: "nat \<Rightarrow> string \<Rightarrow> world \<Rightarrow> world" where
  "loadAssets_resolved i resolvedOwner w =
     (let call = in_flight w ! i;
          r = page_request (inv_contractAddress call) (inv_devnet call) (inv_offset call) resolvedOwner
      in w\<lparr>in_flight := (in_flight w)[i := call\<lparr>inv_awaits := r\<rparr>],
            requests := requests w @ [r]\<rparr>)"

text \<open>Lines 152 to 160.\<close>

definition updateShowcaseAssets :: "OpenseaAsset list \<Rightarrow> string list \<Rightarrow> world \<Rightarrow> world" where
  "updateShowcaseAssets allAssets itemIds w =
     w\<lparr>showcaseAssets :=
         filter (\<lambda>asset. asset_contract_address asset @ ''/'' @ token_id asset \<in> set itemIds)
           allAssets\<rparr>"

text \<open>The effect with dependencies \<open>[assets, showcaseMode, showcaseItemIds]\<close> (lines 203 to 207).\<close>

definition showcase_effect :: "gallery \<Rightarrow> world \<Rightarrow> world" where
  "showcase_effect g w =
     (case showcaseItemIds g of
        None \<Rightarrow> w
      | Some itemIds \<Rightarrow>
          if length (assets w) \<noteq> 0 \<and> showcaseMode g
          then updateShowcaseAssets (assets w) itemIds w else w)"

text \<open>
  The call resumes with the page: the three setters after the fetch, then the showcase
  effect, which React re-runs because \<open>assets\<close> is a new array.
\<close>

definition loadAssets_fetched :: "gallery \<Rightarrow> invocation \<Rightarrow> OpenseaAsset list \<Rightarrow> world \<Rightarrow> world" where
  "loadAssets_fetched g call rawAssets w =
     (let w1 = w\<lparr>assets := assets w @ rawAssets\<rparr>;
          w2 = w1\<lparr>canLoadMore := (length rawAssets = OPENSEA_API_OFFSET g)\<rparr>;
          w3 = (if length (inv_assets call) = 0 then w2\<lparr>isLoading := False\<rparr> else w2)
      in showcase_effect g w3)"

text \<open>The effect with dependencies \<open>[ownerAddress, currentOffset]\<close> (lines 199 to 201).\<close>

definition load_effect :: "gallery \<Rightarrow> world \<Rightarrow> world" where
  "load_effect g w = loadAssets g (ownerAddress g) (contractAddress g) (devnet g) (currentOffset w) w"

text \<open>
  \<open>setCurrentOffset\<close> with an updater function. React re-renders and re-runs the load
  effect when the new value differs from the old one.
\<close>

definition setCurrentOffset :: "gallery \<Rightarrow> (nat \<Rightarrow> nat) \<Rightarrow> world \<Rightarrow> world" where
  "setCurrentOffset g f w =
     (if f (currentOffset w) = currentOffset w then w
      else load_effect g (w\<lparr>currentOffset := f (currentOffset w)\<rparr>))"

subsection \<open>The render surface (lines 129 and 227 to 296)\<close>

definition displayedAssets :: "gallery \<Rightarrow> world \<Rightarrow> OpenseaAsset list" where
  "displayedAssets g w = (if showcaseMode g then showcaseAssets w else assets w)"

definition isLastItemInPage :: "gallery \<Rightarrow> nat \<Rightarrow> bool" where
  "isLastItemInPage g index = ((index + 1) mod OPENSEA_API_OFFSET g = 0)"

text \<open>
  The item at position \<open>k\<close> is wrapped in an \<open>InView\<close> that still observes: the grid is
  rendered (not the loader), the item exists and closes a page, and it has not reported
  \<open>true\<close> before.
\<close>

definition sentinel_observes :: "gallery \<Rightarrow> world \<Rightarrow> nat \<Rightarrow> bool" where
  "sentinel_observes g w k =
     (\<not> isLoading w \<and> k < length (displayedAssets g w) \<and> isLastItemInPage g k
      \<and> k \<notin> set (triggered w))"

definition InView_onChange :: "gallery \<Rightarrow> bool \<Rightarrow> world \<Rightarrow> world" where
  "InView_onChange g isInView w =
     (if \<not> hasLoadMoreButton g \<and> isInView
      then setCurrentOffset g (\<lambda>prevOffset. prevOffset + OPENSEA_API_OFFSET g) w
      else w)"

definition loadMoreButton_rendered :: "gallery \<Rightarrow> world \<Rightarrow> bool" where
  "loadMoreButton_rendered g w = (\<not> isLoading w \<and> hasLoadMoreButton g \<and> canLoadMore w)"

definition LoadMoreButton_onClick :: "gallery \<Rightarrow> world \<Rightarrow> world" where
  "LoadMoreButton_onClick g w =
     setCurrentOffset g (\<lambda>prevOffset. prevOffset + OPENSEA_API_OFFSET g) w"

subsection \<open>The keyboard handler (lines 163 to 197)\<close>

definition hasActiveLightbox :: "string \<Rightarrow> bool" where
  "hasActiveLightbox h = (includes_string h ''lightbox-'' \<and> h \<noteq> ''#lightbox-untarget'')"

definition decreaseLightboxIndex :: "world \<Rightarrow> world" where
  "decreaseLightboxIndex w =
     (if lightboxIndex w = 0 then w
      else let nextIndex = lightboxIndex w - 1
           in w\<lparr>lightboxIndex := nextIndex, location_hash := ''#lightbox-'' @ toString nextIndex\<rparr>)"

definition increaseLightboxIndex :: "world \<Rightarrow> world" where
  "increaseLightboxIndex w =
     (if lightboxIndex w = int (length (assets w)) - 1 then w
      else let nextIndex = lightboxIndex w + 1
           in w\<lparr>lightboxIndex := nextIndex, location_hash := ''#lightbox-'' @ toString nextIndex\<rparr>)"

definition handleKeydownEvent :: "string \<Rightarrow> world \<Rightarrow> world" where
  "handleKeydownEvent key w =
     (if \<not> hasActiveLightbox (location_hash w) then w
      else if key = ''ArrowLeft'' then decreaseLightboxIndex w
      else if key = ''ArrowRight'' then increaseLightboxIndex w
      else if key = ''Escape'' then w\<lparr>location_hash := ''#lightbox-untarget''\<rparr>
      else w)"

subsection \<open>Events\<close>

definition awaits_resolve :: "world \<Rightarrow> nat \<Rightarrow> bool" where
  "awaits_resolve w i =
     (i < length (in_flight w) \<and>
      (case inv_awaits (in_flight w ! i) of resolveEnsDomain n \<Rightarrow> True | _ \<Rightarrow> False))"

definition awaits_fetch :: "world \<Rightarrow> nat \<Rightarrow> bool" where
  "awaits_fetch w i =
     (i < length (in_flight w) \<and>
      (case inv_awaits (in_flight w ! i) of resolveEnsDomain n \<Rightarrow> False | _ \<Rightarrow> True))"

definition settle :: "nat \<Rightarrow> world \<Rightarrow> world" where
  "settle i w = w\<lparr>in_flight := take i (in_flight w) @ drop (Suc i) (in_flight w)\<rparr>"

text \<open>
  A rejected promise makes the \<open>await\<close> throw: the rest of \<open>loadAssets\<close> does not run, and
  nothing catches the rejection. An event that cannot happen in the state (no such
  suspended call, a control that is not rendered) leaves the state as it is.
\<close>

definition step :: "gallery \<Rightarrow> event \<Rightarrow> world \<Rightarrow> world" where
  "step g e w =
     (case e of
        Resolved i resolvedOwner \<Rightarrow>
          if awaits_resolve w i then loadAssets_resolved i resolvedOwner w else w
      | Fetched i rawAssets \<Rightarrow>
          if awaits_fetch w i then loadAssets_fetched g (in_flight w ! i) rawAssets (settle i w) else w
      | Rejected i \<Rightarrow> if i < length (in_flight w) then settle i w else w
      | InViewChange k isInView \<Rightarrow>
          if sentinel_observes g w k
          then InView_onChange g isInView
                 (if isInView then w\<lparr>triggered := k # triggered w\<rparr> else w)
          else w
      | LoadMoreClick \<Rightarrow> if loadMoreButton_rendered g w then LoadMoreButton_onClick g w else w
      | Keydown key \<Rightarrow> handleKeydownEvent key w
      | SetLightboxIndex n \<Rightarrow> w\<lparr>lightboxIndex := n\<rparr>
      | HashChange h \<Rightarrow> w\<lparr>location_hash := h\<rparr>)"

fun run :: "gallery \<Rightarrow> event list \<Rightarrow> world \<Rightarrow> world" where
  "run g [] w = w"
| "run g (e # es) w = run g es (step g e w)"

text \<open>The initial values of the \<open>useState\<close> cells, before any effect has run.\<close>

definition initial :: world where
  "initial = \<lparr>assets = [], showcaseAssets = [], currentOffset = 0, canLoadMore = False,
     isLoading = False, lightboxIndex = 0, location_hash = [], in_flight = [], requests = [],
     triggered = []\<rparr>"

text \<open>The first render: the load effect and the showcase effect run once.\<close>

definition mount :: "gallery \<Rightarrow> world" where
  "mount g = showcase_effect g (load_effect g initial)"

text \<open>The pages that the fetches of a run returned, in the order they arrived.\<close>

fun returned_pages :: "gallery \<Rightarrow> event list \<Rightarrow> world \<Rightarrow> OpenseaAsset list list" where
  "returned_pages g [] w = []"
| "returned_pages g (e # es) w =
     (case e of Fetched i rawAssets \<Rightarrow> (if awaits_fetch w i then [rawAssets] else []) | _ \<Rightarrow> [])
     @ returned_pages g es (step g e w)"

text \<open>
  The offsets of the calls whose pages a run returned, in the order the pages arrived.
  The cursor only grows, so the order of the offsets is the order in which the fetches
  were issued.
\<close>

fun returned_offsets :: "gallery \<Rightarrow> event list \<Rightarrow> world \<Rightarrow> nat list" where
  "returned_offsets g [] w = []"
| "returned_offsets g (e # es) w =
     (case e of
        Fetched i rawAssets \<Rightarrow> (if awaits_fetch w i then [inv_offset (in_flight w ! i)] else [])
      | _ \<Rightarrow> [])
     @ returned_offsets g es (step g e w)"

subsection \<open>Properties of runs\<close>

text \<open>
  Page lengths are bounded by the page size when the remote API honours the limit it is
  asked for. The component does not check this; theorems that need it say so.
\<close>

definition pages_within :: "gallery \<Rightarrow> event list \<Rightarrow> bool" where
  "pages_within g es =
     list_all (\<lambda>e. case e of Fetched i p \<Rightarrow> length p \<le> OPENSEA_API_OFFSET g | _ \<Rightarrow> True) es"

definition no_resolution :: "event list \<Rightarrow> bool" where
  "no_resolution es = list_all (\<lambda>e. case e of Resolved i a \<Rightarrow> False | _ \<Rightarrow> True) es"

definition is_resolve :: "request \<Rightarrow> bool" where
  "is_resolve r = (case r of resolveEnsDomain n \<Rightarrow> True | _ \<Rightarrow> False)"

text \<open>The owner argument of a request.\<close>

definition request_owner :: "request \<Rightarrow> string" where
  "request_owner r =
     (case r of resolveEnsDomain n \<Rightarrow> n | fetchOpenseaAssets a off \<Rightarrow> a
      | fetchOpenseaAssetsByContract a c d off \<Rightarrow> a)"


text \<open>
  The part of the state that paging owns: everything but the lightbox index, the URL
  fragment and the bookkeeping of the sentinels.
\<close>

definition paging ::
  "world \<Rightarrow> OpenseaAsset list \<times> OpenseaAsset list \<times> nat \<times> bool \<times> bool \<times> invocation list \<times> request list" where
  "paging w =
     (assets w, showcaseAssets w, currentOffset w, canLoadMore w, isLoading w, in_flight w,
      requests w)"

subsection \<open>Invariants\<close>

text \<open>What \<open>showcaseAssets\<close> holds for a given accumulated list.\<close>

definition showcase_of :: "gallery \<Rightarrow> OpenseaAsset list \<Rightarrow> OpenseaAsset list" where
  "showcase_of g as =
     (case showcaseItemIds g of
        None \<Rightarrow> []
      | Some itemIds \<Rightarrow>
          if showcaseMode g
          then filter (\<lambda>asset. asset_contract_address asset @ ''/'' @ token_id asset \<in> set itemIds) as
          else [])"


text \<open>The call that the first render of a gallery with an ENS owner leaves suspended.\<close>

definition resolving :: "gallery \<Rightarrow> invocation" where
  "resolving g =
     \<lparr>inv_assets = [], inv_contractAddress = contractAddress g, inv_devnet = devnet g,
      inv_offset = 0, inv_awaits = resolveEnsDomain (ownerAddress g)\<rparr>"

definition awaiting_name :: "gallery \<Rightarrow> world \<Rightarrow> bool" where
  "awaiting_name g w =
     (isLoading w \<and> requests w = [resolveEnsDomain (ownerAddress g)]
      \<and> (in_flight w = [] \<or> in_flight w = [resolving g]))"

definition direct_inv :: "gallery \<Rightarrow> world \<Rightarrow> bool" where
  "direct_inv g w =
     ((\<forall>r \<in> set (requests w). \<not> is_resolve r \<and> request_owner r = ownerAddress g)
      \<and> (\<forall>c \<in> set (in_flight w). \<not> is_resolve (inv_awaits c)))"

text \<open>
  The counting invariant of infinite scroll. Every call of \<open>loadAssets\<close> but the first was
  started by a sentinel, each sentinel starts at most one, and a call adds at most one
  page: the assets received and the pages still owed never exceed one page per call. \<open>d\<close>
  is the number of items by which the pages received so far fell short.
\<close>

definition scroll_inv :: "gallery \<Rightarrow> nat \<Rightarrow> world \<Rightarrow> bool" where
  "scroll_inv g d w =
     (distinct (triggered w)
      \<and> (\<forall>k \<in> set (triggered w). k < length (assets w) \<and> isLastItemInPage g k)
      \<and> length (assets w) + OPENSEA_API_OFFSET g * length (in_flight w) + d
           \<le> OPENSEA_API_OFFSET g * Suc (length (triggered w))
      \<and> length (showcaseAssets w) \<le> length (assets w))"

text \<open>
  Infinite scroll fetches one page at a time: at most one call is suspended, and it
  carries the offset the cursor is at.
\<close>

definition sequential :: "gallery \<Rightarrow> world \<Rightarrow> bool" where
  "sequential g w =
     (scroll_inv g 0 w \<and> length (in_flight w) \<le> 1
      \<and> (\<forall>c \<in> set (in_flight w). inv_offset c = currentOffset w))"

subsection \<open>Example galleries\<close>

definition nft :: "nat \<Rightarrow> OpenseaAsset" where
  "nft n = \<lparr>asset_id = n, asset_contract_address = ''0xabc'', token_id = toString_nat n\<rparr>"

text \<open>
  A gallery with the manual control and a page size of two. \<open>isEnsDomain\<close> is instantiated
  with the \<open>.eth\<close> suffix test.
\<close>

definition button_gallery :: gallery where
  "button_gallery =
     \<lparr>ownerAddress = ''0x1'', contractAddress = [], devnet = False, showcaseMode = False,
      showcaseItemIds = None, hasLoadMoreButton = True,
      isEnsDomain = (\<lambda>s. prefix (rev ''.eth'') (rev s)), OPENSEA_API_OFFSET = 2\<rparr>"

definition gallery20 :: gallery where
  "gallery20 = button_gallery\<lparr>OPENSEA_API_OFFSET := 20\<rparr>"

definition scroll_gallery :: gallery where
  "scroll_gallery = button_gallery\<lparr>hasLoadMoreButton := False\<rparr>"

definition ens_gallery :: gallery where
  "ens_gallery = scroll_gallery\<lparr>ownerAddress := ''vitalik.eth''\<rparr>"

definition showcase_gallery :: gallery where
  "showcase_gallery = scroll_gallery\<lparr>showcaseMode := True, showcaseItemIds := Some [''0xabc/1'']\<rparr>"

definition bare_showcase_gallery :: gallery where
  "bare_showcase_gallery = scroll_gallery\<lparr>showcaseMode := True\<rparr>"


text \<open>
  Showcase mode with one of two assets on the allow-list; the single displayed item is
  open in the lightbox.
\<close>

definition showcase_lightbox :: world where
  "showcase_lightbox =
     run showcase_gallery
       [Fetched 0 [nft 1, nft 2], SetLightboxIndex 0, HashChange ''#lightbox-0'']
       (mount showcase_gallery)"

text \<open>
  The manual control was activated twice before either page came back.
\<close>

definition double_click :: "event list" where
  "double_click = [Fetched 0 [nft 1, nft 2], LoadMoreClick, LoadMoreClick]"

section \<open>Verification\<close>

subsection \<open>What each part of an event handler changes\<close>

lemma step_simps:
  "step g (Resolved i a) w = (if awaits_resolve w i then loadAssets_resolved i a w else w)"
  "step g (Fetched i p) w =
     (if awaits_fetch w i then loadAssets_fetched g (in_flight w ! i) p (settle i w) else w)"
  "step g (Rejected i) w = (if i < length (in_flight w) then settle i w else w)"
  "step g (InViewChange k v) w =
     (if sentinel_observes g w k
      then InView_onChange g v (if v then w\<lparr>triggered := k # triggered w\<rparr> else w) else w)"
  "step g LoadMoreClick w = (if loadMoreButton_rendered g w then LoadMoreButton_onClick g w else w)"
  "step g (Keydown key) w = handleKeydownEvent key w"
  "step g (SetLightboxIndex n) w = w\<lparr>lightboxIndex := n\<rparr>"
  "step g (HashChange h) w = w\<lparr>location_hash := h\<rparr>"
  by (simp_all add: step_def)

lemma run_append: "run g (es @ es') w = run g es' (run g es w)"
  by (induction es arbitrary: w) simp_all

lemma loadAssets_fields:
  "assets (loadAssets g ow c d off w) = assets w"
  "showcaseAssets (loadAssets g ow c d off w) = showcaseAssets w"
  "currentOffset (loadAssets g ow c d off w) = currentOffset w"
  "canLoadMore (loadAssets g ow c d off w) = canLoadMore w"
  "isLoading (loadAssets g ow c d off w) = (isLoading w \<or> assets w = [])"
  "lightboxIndex (loadAssets g ow c d off w) = lightboxIndex w"
  "location_hash (loadAssets g ow c d off w) = location_hash w"
  "triggered (loadAssets g ow c d off w) = triggered w"
  "length (in_flight (loadAssets g ow c d off w)) = Suc (length (in_flight w))"
  by (simp_all add: loadAssets_def Let_def)

lemma setCurrentOffset_fields:
  "assets (setCurrentOffset g f w) = assets w"
  "showcaseAssets (setCurrentOffset g f w) = showcaseAssets w"
  "currentOffset (setCurrentOffset g f w) = f (currentOffset w)"
  "canLoadMore (setCurrentOffset g f w) = canLoadMore w"
  "lightboxIndex (setCurrentOffset g f w) = lightboxIndex w"
  "location_hash (setCurrentOffset g f w) = location_hash w"
  "triggered (setCurrentOffset g f w) = triggered w"
  by (simp_all add: setCurrentOffset_def load_effect_def loadAssets_fields)

lemma showcase_effect_fields:
  "assets (showcase_effect g w) = assets w"
  "currentOffset (showcase_effect g w) = currentOffset w"
  "canLoadMore (showcase_effect g w) = canLoadMore w"
  "isLoading (showcase_effect g w) = isLoading w"
  "lightboxIndex (showcase_effect g w) = lightboxIndex w"
  "location_hash (showcase_effect g w) = location_hash w"
  "in_flight (showcase_effect g w) = in_flight w"
  "requests (showcase_effect g w) = requests w"
  "triggered (showcase_effect g w) = triggered w"
  by (simp_all add: showcase_effect_def updateShowcaseAssets_def split: option.splits)

lemma handleKeydownEvent_fields:
  "assets (handleKeydownEvent key w) = assets w"
  "showcaseAssets (handleKeydownEvent key w) = showcaseAssets w"
  "currentOffset (handleKeydownEvent key w) = currentOffset w"
  "canLoadMore (handleKeydownEvent key w) = canLoadMore w"
  "isLoading (handleKeydownEvent key w) = isLoading w"
  "in_flight (handleKeydownEvent key w) = in_flight w"
  "requests (handleKeydownEvent key w) = requests w"
  "triggered (handleKeydownEvent key w) = triggered w"
  by (simp_all add: handleKeydownEvent_def decreaseLightboxIndex_def increaseLightboxIndex_def Let_def)

lemma settle_fields:
  "assets (settle i w) = assets w"
  "showcaseAssets (settle i w) = showcaseAssets w"
  "currentOffset (settle i w) = currentOffset w"
  "canLoadMore (settle i w) = canLoadMore w"
  "isLoading (settle i w) = isLoading w"
  "lightboxIndex (settle i w) = lightboxIndex w"
  "location_hash (settle i w) = location_hash w"
  "requests (settle i w) = requests w"
  "triggered (settle i w) = triggered w"
  by (simp_all add: settle_def)

lemma set_settle: "set (in_flight (settle i w)) \<subseteq> set (in_flight w)"
  by (auto simp: settle_def dest: in_set_takeD in_set_dropD)

lemma length_settle:
  "i < length (in_flight w) \<Longrightarrow> Suc (length (in_flight (settle i w))) = length (in_flight w)"
  by (simp add: settle_def)

lemmas step_parts =
  step_def loadAssets_resolved_def loadAssets_fetched_def settle_def Let_def
  showcase_effect_fields InView_onChange_def LoadMoreButton_onClick_def
  setCurrentOffset_fields handleKeydownEvent_fields

lemmas evaluate =
  mount_def initial_def load_effect_def loadAssets_def page_request_def showcase_effect_def
  updateShowcaseAssets_def step_def awaits_fetch_def awaits_resolve_def settle_def
  loadAssets_fetched_def loadAssets_resolved_def loadMoreButton_rendered_def
  LoadMoreButton_onClick_def InView_onChange_def sentinel_observes_def isLastItemInPage_def
  displayedAssets_def setCurrentOffset_def handleKeydownEvent_def hasActiveLightbox_def
  decreaseLightboxIndex_def increaseLightboxIndex_def toString_def Let_def

lemmas examples =
  button_gallery_def gallery20_def scroll_gallery_def ens_gallery_def showcase_gallery_def
  bare_showcase_gallery_def nft_def toString_nat.simps digit_char_def

lemma assets_step:
  "assets (step g e w) =
     assets w @ (case e of Fetched i p \<Rightarrow> if awaits_fetch w i then p else [] | _ \<Rightarrow> [])"
  by (cases e) (simp_all add: step_parts)

lemma assets_mount: "assets (mount g) = []"
  by (simp add: mount_def showcase_effect_fields load_effect_def loadAssets_fields initial_def)

lemma canLoadMore_step:
  "canLoadMore (step g e w) =
     (case e of
        Fetched i p \<Rightarrow>
          if awaits_fetch w i then length p = OPENSEA_API_OFFSET g else canLoadMore w
      | _ \<Rightarrow> canLoadMore w)"
  by (cases e) (simp_all add: step_parts)

subsection \<open>C2: the has-more flag\<close>

text \<open>
  C2. After every completed page fetch, \<open>canLoadMore\<close> is true if and only if the page has
  exactly \<open>OPENSEA_API_OFFSET\<close> items, so any shorter page, the empty one included, sets it
  to false. Nothing else writes the flag: an event that is not the arrival of a page for
  a call that waits for one leaves it as it was.
\<close>

theorem has_more_iff_full_page:
  "(awaits_fetch w i \<longrightarrow>
      canLoadMore (step g (Fetched i rawAssets) w) = (length rawAssets = OPENSEA_API_OFFSET g))
   \<and> ((\<forall>j p. e = Fetched j p \<longrightarrow> \<not> awaits_fetch w j) \<longrightarrow>
      canLoadMore (step g e w) = canLoadMore w)"
  by (cases e) (simp_all add: canLoadMore_step)

text \<open>
  The page size is 20. A first page of 20 items sets the flag and a click moves the
  cursor to 20; a second page of 7 items clears the flag, and a click after that issues
  no request.
\<close>

theorem has_more_iff_full_page_witness:
  "awaits_fetch (mount gallery20) 0
   \<and> canLoadMore (step gallery20 (Fetched 0 (map nft [0..<20])) (mount gallery20))
   \<and> canLoadMore (step gallery20 (HashChange ''#top'') (mount gallery20))
       = canLoadMore (mount gallery20)
   \<and> currentOffset
        (run gallery20 [Fetched 0 (map nft [0..<20]), LoadMoreClick] (mount gallery20)) = 20
   \<and> \<not> canLoadMore
        (run gallery20 [Fetched 0 (map nft [0..<20]), LoadMoreClick, Fetched 0 (map nft [20..<27])]
           (mount gallery20))
   \<and> requests
        (run gallery20
           [Fetched 0 (map nft [0..<20]), LoadMoreClick, Fetched 0 (map nft [20..<27]), LoadMoreClick]
           (mount gallery20))
       = [fetchOpenseaAssets ''0x1'' 0, fetchOpenseaAssets ''0x1'' 20]"
proof -
  have waits: "awaits_fetch (mount gallery20) 0"
    by (simp add: evaluate gallery20_def button_gallery_def)
  have other: "\<forall>j p. HashChange ''#top'' = Fetched j p \<longrightarrow> \<not> awaits_fetch (mount gallery20) j"
    by simp
  from has_more_iff_full_page
         [where w = "mount gallery20" and i = 0 and g = gallery20
            and rawAssets = "map nft [0..<20]" and e = "HashChange ''#top''"]
       waits other
  have "canLoadMore (step gallery20 (Fetched 0 (map nft [0..<20])) (mount gallery20))
          = (length (map nft [0..<20]) = OPENSEA_API_OFFSET gallery20)
      \<and> canLoadMore (step gallery20 (HashChange ''#top'') (mount gallery20))
          = canLoadMore (mount gallery20)"
    by blast
  moreover have "length (map nft [0..<20]) = OPENSEA_API_OFFSET gallery20"
    by (simp add: gallery20_def)
  moreover have "currentOffset
        (run gallery20 [Fetched 0 (map nft [0..<20]), LoadMoreClick] (mount gallery20)) = 20"
    by (simp add: evaluate gallery20_def button_gallery_def)
  moreover have "\<not> canLoadMore
        (run gallery20 [Fetched 0 (map nft [0..<20]), LoadMoreClick, Fetched 0 (map nft [20..<27])]
           (mount gallery20))"
    by (simp add: evaluate gallery20_def button_gallery_def)
  moreover have "requests
        (run gallery20
           [Fetched 0 (map nft [0..<20]), LoadMoreClick, Fetched 0 (map nft [20..<27]), LoadMoreClick]
           (mount gallery20))
       = [fetchOpenseaAssets ''0x1'' 0, fetchOpenseaAssets ''0x1'' 20]"
    by (simp add: evaluate gallery20_def button_gallery_def)
  ultimately show ?thesis
    using waits by simp
qed

subsection \<open>The first load\<close>














subsection \<open>Infinite scroll: one sentinel, one call\<close>

lemma card_page_ends: "0 < m \<Longrightarrow> card {k. k < n \<and> Suc k mod m = 0} = n div m"
proof (induction n)
  case 0
  then show ?case by simp
next
  case (Suc n)
  have split: "{k. k < Suc n \<and> Suc k mod m = 0}
      = (if Suc n mod m = 0 then insert n {k. k < n \<and> Suc k mod m = 0}
         else {k. k < n \<and> Suc k mod m = 0})"
    by (auto simp: less_Suc_eq)
  have fin: "finite {k. k < n \<and> Suc k mod m = 0}" by simp
  have notin: "n \<notin> {k. k < n \<and> Suc k mod m = 0}" by simp
  show ?case
    using Suc fin notin by (simp add: split div_Suc)
qed

text \<open>
  A sentinel that still observes closes a page that no earlier sentinel closed, so the
  list holds one full page more than the sentinels that have fired account for.
\<close>

lemma observed_sentinel_needs_assets:
  assumes inv: "scroll_inv g d w" and obs: "sentinel_observes g w k"
  shows "OPENSEA_API_OFFSET g * Suc (length (triggered w)) \<le> length (assets w)"
proof -
  let ?m = "OPENSEA_API_OFFSET g"
  let ?S = "{k. k < length (assets w) \<and> Suc k mod ?m = 0}"
  from obs have last: "Suc k mod ?m = 0" and shown: "k < length (displayedAssets g w)"
    and fresh: "k \<notin> set (triggered w)"
    by (simp_all add: sentinel_observes_def isLastItemInPage_def)
  from last have m: "0 < ?m" by (cases "?m = 0") simp_all
  from inv have "length (displayedAssets g w) \<le> length (assets w)"
    by (simp add: scroll_inv_def displayedAssets_def)
  with shown last have k: "k \<in> ?S" by simp
  from inv have sub: "set (triggered w) \<subseteq> ?S"
    by (auto simp: scroll_inv_def isLastItemInPage_def)
  have "set (triggered w) \<noteq> ?S"
  proof
    assume eq: "set (triggered w) = ?S"
    from k have "k \<in> set (triggered w)" unfolding eq .
    with fresh show False ..
  qed
  with sub have "set (triggered w) \<subset> ?S" by (rule psubsetI)
  then have "card (set (triggered w)) < card ?S"
    by (intro psubset_card_mono) simp_all
  moreover from inv have "card (set (triggered w)) = length (triggered w)"
    by (simp add: scroll_inv_def distinct_card)
  ultimately have "Suc (length (triggered w)) \<le> length (assets w) div ?m"
    using m by (simp add: card_page_ends)
  then have "?m * Suc (length (triggered w)) \<le> ?m * (length (assets w) div ?m)"
    by (rule mult_le_mono2)
  also have "\<dots> \<le> length (assets w)" by simp
  finally show ?thesis .
qed

lemma no_sentinel_while_in_flight:
  assumes "scroll_inv g d w" "sentinel_observes g w k"
  shows "in_flight w = [] \<and> d = 0"
proof -
  from assms(2) have m: "0 < OPENSEA_API_OFFSET g"
    by (cases "OPENSEA_API_OFFSET g = 0") (simp_all add: sentinel_observes_def isLastItemInPage_def)
  from observed_sentinel_needs_assets [OF assms] assms(1)
  have "OPENSEA_API_OFFSET g * length (in_flight w) + d = 0"
    unfolding scroll_inv_def by linarith
  with m show ?thesis by simp
qed

lemma one_fetch_at_a_time:
  assumes inv: "scroll_inv g d w" and m: "0 < OPENSEA_API_OFFSET g"
  shows "length (in_flight w) \<le> 1"
proof -
  let ?m = "OPENSEA_API_OFFSET g"
  let ?S = "{k. k < length (assets w) \<and> Suc k mod ?m = 0}"
  from inv have "set (triggered w) \<subseteq> ?S"
    by (auto simp: scroll_inv_def isLastItemInPage_def)
  then have "card (set (triggered w)) \<le> card ?S"
    by (intro card_mono) simp_all
  moreover from inv have "card (set (triggered w)) = length (triggered w)"
    by (simp add: scroll_inv_def distinct_card)
  ultimately have "length (triggered w) \<le> length (assets w) div ?m"
    using m by (simp add: card_page_ends)
  then have "?m * length (triggered w) \<le> ?m * (length (assets w) div ?m)"
    by (rule mult_le_mono2)
  also have "\<dots> \<le> length (assets w)" by simp
  finally have "?m * length (triggered w) \<le> length (assets w)" .
  moreover from inv have "length (assets w) + ?m * length (in_flight w)
      \<le> ?m + ?m * length (triggered w)"
    by (simp add: scroll_inv_def)
  ultimately have "?m * length (in_flight w) \<le> ?m * 1" by linarith
  with m show ?thesis by simp
qed

lemma scroll_inv_mount: "scroll_inv g 0 (mount g)"
  by (simp add: scroll_inv_def mount_def showcase_effect_def load_effect_def loadAssets_def
      initial_def Let_def updateShowcaseAssets_def split: option.splits)

lemma scroll_inv_settle:
  assumes "scroll_inv g d w" "i < length (in_flight w)"
  shows "scroll_inv g d (settle i w)"
proof -
  have "length (in_flight (settle i w)) \<le> length (in_flight w)"
    using length_settle [OF assms(2)] by simp
  then have "OPENSEA_API_OFFSET g * length (in_flight (settle i w))
      \<le> OPENSEA_API_OFFSET g * length (in_flight w)"
    by (rule mult_le_mono2)
  with assms(1) show ?thesis
    unfolding scroll_inv_def settle_fields by linarith
qed

lemma scroll_inv_resolved:
  "scroll_inv g d w \<Longrightarrow> scroll_inv g d (loadAssets_resolved i a w)"
  by (simp add: scroll_inv_def loadAssets_resolved_def Let_def)

lemma length_showcase_effect:
  "length (showcaseAssets w) \<le> length (assets w) \<Longrightarrow>
   length (showcaseAssets (showcase_effect g w)) \<le> length (assets w)"
  by (simp add: showcase_effect_def updateShowcaseAssets_def split: option.splits)

text \<open>
  A page of \<open>length p\<close> items settles a call that was owed a full page: the shortfall grows
  from \<open>d\<close> to any \<open>d'\<close> with \<open>length p + d' \<le> OPENSEA_API_OFFSET + d\<close>.
\<close>

lemma scroll_inv_fetched:
  assumes inv: "scroll_inv g d w" and i: "i < length (in_flight w)"
    and p: "length p + d' \<le> OPENSEA_API_OFFSET g + d"
  shows "scroll_inv g d' (loadAssets_fetched g (in_flight w ! i) p (settle i w))"
proof -
  let ?m = "OPENSEA_API_OFFSET g"
  let ?w = "loadAssets_fetched g (in_flight w ! i) p (settle i w)"
  have fields: "assets ?w = assets w @ p" "triggered ?w = triggered w"
    "in_flight ?w = in_flight (settle i w)"
    by (simp_all add: loadAssets_fetched_def Let_def showcase_effect_fields settle_fields)
  have "?m * length (in_flight w) = ?m * length (in_flight (settle i w)) + ?m"
    using length_settle [OF i, symmetric] by simp
  with inv p have slack: "length (assets ?w) + ?m * length (in_flight ?w) + d'
      \<le> ?m * Suc (length (triggered ?w))"
    unfolding scroll_inv_def fields by simp
  have "length (showcaseAssets ?w) \<le> length (assets ?w)"
    unfolding loadAssets_fetched_def Let_def
    using inv
    by (auto simp: showcase_effect_fields scroll_inv_def settle_fields
          intro!: length_showcase_effect [THEN order_trans])
  with inv slack show ?thesis
    unfolding scroll_inv_def using fields(1,2) by auto
qed

lemma scroll_inv_fired:
  assumes inv: "scroll_inv g d w" and obs: "sentinel_observes g w k"
  shows "scroll_inv g d
           (setCurrentOffset g (\<lambda>prevOffset. prevOffset + OPENSEA_API_OFFSET g)
              (w\<lparr>triggered := k # triggered w\<rparr>))"
proof -
  let ?m = "OPENSEA_API_OFFSET g"
  let ?w' = "setCurrentOffset g (\<lambda>prevOffset. prevOffset + OPENSEA_API_OFFSET g)
              (w\<lparr>triggered := k # triggered w\<rparr>)"
  from obs have m: "0 < ?m"
    by (cases "?m = 0") (simp_all add: sentinel_observes_def isLastItemInPage_def)
  from obs have fresh: "k \<notin> set (triggered w)" and last: "isLastItemInPage g k"
    and shown: "k < length (displayedAssets g w)"
    by (simp_all add: sentinel_observes_def)
  from inv have "length (displayedAssets g w) \<le> length (assets w)"
    by (simp add: scroll_inv_def displayedAssets_def)
  with shown have k: "k < length (assets w)" by simp
  from inv have slack: "length (assets w) + ?m * length (in_flight w) + d
      \<le> ?m * Suc (length (triggered w))"
    by (simp add: scroll_inv_def)
  then have "length (assets w) + ?m * Suc (length (in_flight w)) + d
      \<le> ?m * Suc (Suc (length (triggered w)))"
    by simp
  moreover have "assets ?w' = assets w" "showcaseAssets ?w' = showcaseAssets w"
    "triggered ?w' = k # triggered w"
    by (simp_all add: setCurrentOffset_fields)
  moreover have "length (in_flight ?w') = Suc (length (in_flight w))"
    using m by (simp add: setCurrentOffset_def load_effect_def loadAssets_fields)
  ultimately show ?thesis
    using inv fresh last k unfolding scroll_inv_def by simp
qed

lemma scroll_inv_step:
  assumes scroll: "\<not> hasLoadMoreButton g" and inv: "scroll_inv g d w"
    and bound: "case e of Fetched i p \<Rightarrow> length p \<le> OPENSEA_API_OFFSET g | _ \<Rightarrow> True"
  shows "scroll_inv g d (step g e w)"
proof (cases e)
  case (Resolved i a)
  with inv show ?thesis by (simp add: step_simps scroll_inv_resolved)
next
  case (Fetched i p)
  with bound have "length p + d \<le> OPENSEA_API_OFFSET g + d" by simp
  with inv Fetched show ?thesis
    by (simp add: step_simps awaits_fetch_def scroll_inv_fetched)
next
  case (Rejected i)
  with inv show ?thesis by (simp add: step_simps scroll_inv_settle)
next
  case (InViewChange k v)
  with inv scroll show ?thesis
    by (simp add: step_simps InView_onChange_def scroll_inv_fired)
next
  case LoadMoreClick
  with inv scroll show ?thesis by (simp add: step_simps loadMoreButton_rendered_def)
next
  case (Keydown key)
  with inv show ?thesis by (simp add: step_simps scroll_inv_def handleKeydownEvent_fields)
next
  case (SetLightboxIndex n)
  with inv show ?thesis by (simp add: step_simps scroll_inv_def)
next
  case (HashChange h)
  with inv show ?thesis by (simp add: step_simps scroll_inv_def)
qed

lemma scroll_inv_run:
  "\<not> hasLoadMoreButton g \<Longrightarrow> pages_within g es \<Longrightarrow> scroll_inv g d w \<Longrightarrow>
   scroll_inv g d (run g es w)"
  by (induction es arbitrary: w) (simp_all add: pages_within_def scroll_inv_step)

lemma scroll_inv_reachable:
  "\<not> hasLoadMoreButton g \<Longrightarrow> pages_within g es \<Longrightarrow> scroll_inv g 0 (run g es (mount g))"
  by (rule scroll_inv_run) (simp_all add: scroll_inv_mount)

text \<open>
  With infinite scroll and pages within the page size, a sentinel observes only when no
  call is suspended, so calls never overlap and their pages arrive in the order of their
  offsets.
\<close>

lemma sequential_mount: "sequential g (mount g)"
  by (simp add: sequential_def scroll_inv_mount)
     (simp add: mount_def showcase_effect_fields load_effect_def loadAssets_def initial_def Let_def)

lemma sequential_step:
  assumes scroll: "\<not> hasLoadMoreButton g" and seq: "sequential g w"
    and bound: "case e of Fetched i p \<Rightarrow> length p \<le> OPENSEA_API_OFFSET g | _ \<Rightarrow> True"
  shows "sequential g (step g e w)
       \<and> currentOffset w \<le> currentOffset (step g e w)
       \<and> (in_flight (step g e w) = [] \<longrightarrow> currentOffset (step g e w) = currentOffset w)
       \<and> (in_flight w = [] \<and> in_flight (step g e w) \<noteq> [] \<longrightarrow>
            currentOffset w < currentOffset (step g e w))"
proof -
  from seq have inv: "scroll_inv g 0 w" and one: "length (in_flight w) \<le> 1"
    and off: "\<forall>c \<in> set (in_flight w). inv_offset c = currentOffset w"
    by (simp_all add: sequential_def)
  have inv': "scroll_inv g 0 (step g e w)"
    using scroll inv bound by (rule scroll_inv_step)
  show ?thesis
  proof (cases e)
    case (Resolved i a)
    show ?thesis
    proof (cases "awaits_resolve w i")
      case True
      then have i: "i < length (in_flight w)" by (simp add: awaits_resolve_def)
      with one obtain c where xs: "in_flight w = [c]" and zero: "i = 0"
        by (cases "in_flight w") auto
      from off xs have "inv_offset c = currentOffset w" by simp
      with inv' True xs zero show ?thesis
        unfolding Resolved sequential_def
        by (simp add: step_simps loadAssets_resolved_def Let_def)
    next
      case False
      with seq show ?thesis by (simp add: Resolved step_simps)
    qed
  next
    case (Fetched i p)
    show ?thesis
    proof (cases "awaits_fetch w i")
      case True
      then have i: "i < length (in_flight w)" by (simp add: awaits_fetch_def)
      from one length_settle [OF i] have "length (in_flight (settle i w)) = 0" by linarith
      then have "in_flight (settle i w) = []" by simp
      with inv' True show ?thesis
        unfolding Fetched sequential_def
        by (simp add: step_simps loadAssets_fetched_def Let_def showcase_effect_fields settle_fields)
    next
      case False
      with seq show ?thesis by (simp add: Fetched step_simps)
    qed
  next
    case (Rejected i)
    show ?thesis
    proof (cases "i < length (in_flight w)")
      case True
      from one length_settle [OF True] have "length (in_flight (settle i w)) = 0" by linarith
      then have "in_flight (settle i w) = []" by simp
      with inv' True show ?thesis
        unfolding Rejected sequential_def
        by (simp add: step_simps settle_fields)
    next
      case False
      with seq show ?thesis by (simp add: Rejected step_simps)
    qed
  next
    case (InViewChange k v)
    show ?thesis
    proof (cases "sentinel_observes g w k \<and> v")
      case True
      with inv have idle: "in_flight w = []"
        using no_sentinel_while_in_flight by blast
      from True have m: "0 < OPENSEA_API_OFFSET g"
        by (cases "OPENSEA_API_OFFSET g = 0") (simp_all add: sentinel_observes_def isLastItemInPage_def)
      from True scroll m idle inv' show ?thesis
        unfolding InViewChange sequential_def
        by (simp add: step_simps InView_onChange_def setCurrentOffset_def load_effect_def
              loadAssets_def Let_def)
    next
      case False
      with seq inv' show ?thesis
        by (auto simp: InViewChange step_simps InView_onChange_def sequential_def)
    qed
  next
    case LoadMoreClick
    with seq scroll show ?thesis by (simp add: step_simps loadMoreButton_rendered_def)
  next
    case (Keydown key)
    with seq inv' show ?thesis
      by (simp add: step_simps sequential_def handleKeydownEvent_fields)
  next
    case (SetLightboxIndex n)
    with seq inv' show ?thesis by (simp add: step_simps sequential_def)
  next
    case (HashChange h)
    with seq inv' show ?thesis by (simp add: step_simps sequential_def)
  qed
qed



lemma returned_offsets_increase:
  assumes scroll: "\<not> hasLoadMoreButton g"
  shows "pages_within g es \<Longrightarrow> sequential g w \<Longrightarrow>
     sorted_wrt (<) (returned_offsets g es w)
     \<and> (\<forall>x \<in> set (returned_offsets g es w). currentOffset w \<le> x)
     \<and> (in_flight w = [] \<longrightarrow> (\<forall>x \<in> set (returned_offsets g es w). currentOffset w < x))"
proof (induction es arbitrary: w)
  case Nil
  then show ?case by simp
next
  case (Cons e es)
  let ?w = "step g e w"
  let ?h = "case e of
        Fetched i rawAssets \<Rightarrow> (if awaits_fetch w i then [inv_offset (in_flight w ! i)] else [])
      | _ \<Rightarrow> []"
  from Cons.prems(1) have bound: "case e of Fetched i p \<Rightarrow> length p \<le> OPENSEA_API_OFFSET g | _ \<Rightarrow> True"
    and rest: "pages_within g es"
    by (simp_all add: pages_within_def)
  from sequential_step [OF scroll Cons.prems(2) bound]
  have seq: "sequential g ?w" and mono: "currentOffset w \<le> currentOffset ?w"
    and same: "in_flight ?w = [] \<longrightarrow> currentOffset ?w = currentOffset w"
    and started: "in_flight w = [] \<and> in_flight ?w \<noteq> [] \<longrightarrow> currentOffset w < currentOffset ?w"
    by blast+
  from Cons.IH [OF rest seq]
  have sorted: "sorted_wrt (<) (returned_offsets g es ?w)"
    and above: "\<forall>x \<in> set (returned_offsets g es ?w). currentOffset ?w \<le> x"
    and strict: "in_flight ?w = [] \<longrightarrow> (\<forall>x \<in> set (returned_offsets g es ?w). currentOffset ?w < x)"
    by blast+
  have head: "?h = [] \<or> (?h = [currentOffset w] \<and> in_flight ?w = [] \<and> in_flight w \<noteq> [])"
  proof (cases e)
    case (Fetched i p)
    show ?thesis
    proof (cases "awaits_fetch w i")
      case True
      then have i: "i < length (in_flight w)" by (simp add: awaits_fetch_def)
      with Cons.prems(2) have "inv_offset (in_flight w ! i) = currentOffset w"
        and "length (in_flight w) \<le> 1"
        by (simp_all add: sequential_def)
      moreover from this(2) length_settle [OF i] have "length (in_flight (settle i w)) = 0"
        by linarith
      ultimately show ?thesis
        using True i
        by (auto simp: Fetched step_simps loadAssets_fetched_def Let_def showcase_effect_fields)
    next
      case False
      then show ?thesis by (simp add: Fetched)
    qed
  qed simp_all
  have eq: "returned_offsets g (e # es) w = ?h @ returned_offsets g es ?w"
    by simp
  from head show ?case
  proof
    assume none: "?h = []"
    have low: "currentOffset w \<le> x" if "x \<in> set (returned_offsets g es ?w)" for x
      using above that mono by (meson order_trans)
    have high: "currentOffset w < x"
      if "in_flight w = []" "x \<in> set (returned_offsets g es ?w)" for x
    proof (cases "in_flight ?w = []")
      case True
      with same strict that(2) show ?thesis by simp
    next
      case False
      with started that(1) have "currentOffset w < currentOffset ?w" by simp
      moreover from above that(2) have "currentOffset ?w \<le> x" by simp
      ultimately show ?thesis by simp
    qed
    from sorted low high show ?thesis
      unfolding eq none by simp
  next
    assume h: "?h = [currentOffset w] \<and> in_flight ?w = [] \<and> in_flight w \<noteq> []"
    with same strict have "\<forall>x \<in> set (returned_offsets g es ?w). currentOffset w < x"
      by simp
    with h sorted show ?thesis
      unfolding eq by (auto simp: less_imp_le)
  qed
qed

subsection \<open>After the last page\<close>

lemma exhausted_step:
  assumes idle: "in_flight w = []"
    and mode: "(hasLoadMoreButton g \<and> \<not> canLoadMore w)
        \<or> (\<not> hasLoadMoreButton g \<and> scroll_inv g 1 w)"
  shows "paging (step g e w) = paging w
       \<and> (\<not> hasLoadMoreButton g \<longrightarrow> triggered (step g e w) = triggered w)"
proof (cases e)
  case (InViewChange k v)
  show ?thesis
  proof (cases "hasLoadMoreButton g")
    case True
    then show ?thesis
      by (simp add: InViewChange step_simps InView_onChange_def paging_def)
  next
    case False
    with mode have "scroll_inv g 1 w" by simp
    then have "\<not> sentinel_observes g w k"
      using no_sentinel_while_in_flight [of g 1 w k] by auto
    then show ?thesis by (simp add: InViewChange step_simps)
  qed
next
  case LoadMoreClick
  with mode show ?thesis
    by (auto simp: step_simps loadMoreButton_rendered_def)
qed (simp_all add: idle step_simps awaits_resolve_def awaits_fetch_def paging_def
       handleKeydownEvent_fields)

lemma scroll_inv_cong:
  "paging w' = paging w \<Longrightarrow> triggered w' = triggered w \<Longrightarrow> scroll_inv g d w' = scroll_inv g d w"
  by (simp add: paging_def scroll_inv_def)

lemma exhausted_run:
  assumes "in_flight w = []"
    and "(hasLoadMoreButton g \<and> \<not> canLoadMore w) \<or> (\<not> hasLoadMoreButton g \<and> scroll_inv g 1 w)"
  shows "paging (run g es w) = paging w"
  using assms
proof (induction es arbitrary: w)
  case Nil
  then show ?case by simp
next
  case (Cons e es)
  from Cons.prems have same: "paging (step g e w) = paging w"
    and trig: "\<not> hasLoadMoreButton g \<longrightarrow> triggered (step g e w) = triggered w"
    using exhausted_step [of w g e] by simp_all
  from same Cons.prems(1) have idle: "in_flight (step g e w) = []"
    by (simp add: paging_def)
  from same have flag: "canLoadMore (step g e w) = canLoadMore w"
    by (simp add: paging_def)
  have "(hasLoadMoreButton g \<and> \<not> canLoadMore (step g e w))
      \<or> (\<not> hasLoadMoreButton g \<and> scroll_inv g 1 (step g e w))"
    using Cons.prems(2) flag trig scroll_inv_cong [OF same, of g 1] by auto
  with idle have "paging (run g es (step g e w)) = paging (step g e w)"
    by (rule Cons.IH)
  with same show ?case by simp
qed

subsection \<open>C1: the accumulated list\<close>

text \<open>
  C1, as the claim states it, fails: pages are appended as they arrive, not in the order
  in which they were fetched. In \<open>button_gallery\<close> the control is activated twice before
  either page comes back (\<open>double_click\<close>), so the fetches at offsets 2 and 4 overlap. The
  page for offset 4 arrives first: the list holds the pages of the offsets 0, 4, 2 in
  that order, not the concatenation in the order 0, 2, 4 of the requests.
\<close>

theorem pages_appended_out_of_fetch_order_counterexample:
  "requests
     (run button_gallery (double_click @ [Fetched 1 [nft 5, nft 6], Fetched 0 [nft 3, nft 4]])
        (mount button_gallery))
     = [fetchOpenseaAssets ''0x1'' 0, fetchOpenseaAssets ''0x1'' 2, fetchOpenseaAssets ''0x1'' 4]
   \<and> returned_offsets button_gallery
        (double_click @ [Fetched 1 [nft 5, nft 6], Fetched 0 [nft 3, nft 4]])
        (mount button_gallery)
     = [0, 4, 2]
   \<and> assets
        (run button_gallery (double_click @ [Fetched 1 [nft 5, nft 6], Fetched 0 [nft 3, nft 4]])
           (mount button_gallery))
     = [nft 1, nft 2, nft 5, nft 6, nft 3, nft 4]
   \<and> assets
        (run button_gallery (double_click @ [Fetched 1 [nft 5, nft 6], Fetched 0 [nft 3, nft 4]])
           (mount button_gallery))
     \<noteq> [nft 1, nft 2, nft 3, nft 4, nft 5, nft 6]"
  by (simp add: double_click_def evaluate examples)

text \<open>
  C1, amended. For every sequence of successful page fetches on one gallery, the
  accumulated asset list equals the concatenation of the returned pages in the order in
  which they arrive: each page is appended at the end, in its own order, and no earlier
  entry changes. Events of other kinds may be interleaved at will. With infinite scroll
  (\<open>hasLoadMoreButton\<close> false) and pages of at most \<open>OPENSEA_API_OFFSET\<close> items the fetches
  never overlap, and the pages arrive in the order of their offsets, which is the order
  in which they were fetched. With the manual control, fetches can overlap and their
  pages are appended as they arrive. The first conjunct is the statement for a gallery
  from its first render, the second the step from any state; the third says that
  \<open>returned_offsets\<close> lists one offset for each returned page.
\<close>

theorem accumulated_list_is_concat_of_pages:
  "assets (run g es (mount g)) = concat (returned_pages g es (mount g))
   \<and> assets (run g es w) = assets w @ concat (returned_pages g es w)
   \<and> length (returned_offsets g es w) = length (returned_pages g es w)
   \<and> (\<not> hasLoadMoreButton g \<and> pages_within g es \<longrightarrow>
        sorted_wrt (<) (returned_offsets g es (mount g)))"
proof -
  have appended: "assets (run g es w) = assets w @ concat (returned_pages g es w)" for w
    by (induction es arbitrary: w) (simp_all add: assets_step split: event.splits)
  have paired: "length (returned_offsets g es w) = length (returned_pages g es w)" for w
    by (induction es arbitrary: w) (simp_all split: event.splits)
  have ordered: "sorted_wrt (<) (returned_offsets g es (mount g))"
    if "\<not> hasLoadMoreButton g" "pages_within g es"
    using returned_offsets_increase [OF that sequential_mount] by blast
  from appended paired ordered show ?thesis
    by (simp add: assets_mount)
qed

text \<open>
  \<open>scroll_gallery\<close>: the first page, a key press, the sentinel, the second page. The pages
  of the offsets 0 and 2 arrive in that order and make up the list.
\<close>

theorem accumulated_list_is_concat_of_pages_witness:
  "\<not> hasLoadMoreButton scroll_gallery
   \<and> pages_within scroll_gallery
        [Fetched 0 [nft 1, nft 2], Keydown ''Escape'', InViewChange 1 True, Fetched 0 [nft 3]]
   \<and> returned_pages scroll_gallery
        [Fetched 0 [nft 1, nft 2], Keydown ''Escape'', InViewChange 1 True, Fetched 0 [nft 3]]
        (mount scroll_gallery)
     = [[nft 1, nft 2], [nft 3]]
   \<and> returned_offsets scroll_gallery
        [Fetched 0 [nft 1, nft 2], Keydown ''Escape'', InViewChange 1 True, Fetched 0 [nft 3]]
        (mount scroll_gallery)
     = [0, 2]
   \<and> sorted_wrt (<)
        (returned_offsets scroll_gallery
           [Fetched 0 [nft 1, nft 2], Keydown ''Escape'', InViewChange 1 True, Fetched 0 [nft 3]]
           (mount scroll_gallery))
   \<and> assets (run scroll_gallery
            [Fetched 0 [nft 1, nft 2], Keydown ''Escape'', InViewChange 1 True, Fetched 0 [nft 3]]
            (mount scroll_gallery))
     = [nft 1, nft 2, nft 3]"
proof -
  let ?es = "[Fetched 0 [nft 1, nft 2], Keydown ''Escape'', InViewChange 1 True, Fetched 0 [nft 3]]"
  have scroll: "\<not> hasLoadMoreButton scroll_gallery"
    by (simp add: scroll_gallery_def button_gallery_def)
  have bounded: "pages_within scroll_gallery ?es"
    by (simp add: pages_within_def scroll_gallery_def button_gallery_def)
  have pages: "returned_pages scroll_gallery ?es (mount scroll_gallery) = [[nft 1, nft 2], [nft 3]]"
    by (simp add: evaluate scroll_gallery_def button_gallery_def)
  have offsets: "returned_offsets scroll_gallery ?es (mount scroll_gallery) = [0, 2]"
    by (simp add: evaluate scroll_gallery_def button_gallery_def)
  from accumulated_list_is_concat_of_pages [where g = scroll_gallery and es = ?es] scroll bounded
  have list: "assets (run scroll_gallery ?es (mount scroll_gallery))
        = concat (returned_pages scroll_gallery ?es (mount scroll_gallery))"
    and sorted: "sorted_wrt (<) (returned_offsets scroll_gallery ?es (mount scroll_gallery))"
    by blast+
  from list have "assets (run scroll_gallery ?es (mount scroll_gallery)) = [nft 1, nft 2, nft 3]"
    by (simp only: pages concat.simps append.simps)
  with scroll bounded pages offsets sorted show ?thesis
    by (intro conjI)
qed

subsection \<open>C3: a request for the next page while a fetch is in flight\<close>

text \<open>
  C3, as the claim states it, fails: the manual control has no in-flight guard. In
  \<open>button_gallery\<close> the first page has arrived and the control was activated once, so the
  fetch at offset 2 is in flight; a second activation moves the cursor to 4 and issues a
  third request.
\<close>

theorem load_more_click_while_in_flight_counterexample:
  "length (in_flight
      (run button_gallery [Fetched 0 [nft 1, nft 2], LoadMoreClick] (mount button_gallery))) = 1
   \<and> currentOffset
       (run button_gallery [Fetched 0 [nft 1, nft 2], LoadMoreClick] (mount button_gallery)) = 2
   \<and> requests
       (run button_gallery [Fetched 0 [nft 1, nft 2], LoadMoreClick] (mount button_gallery))
       = [fetchOpenseaAssets ''0x1'' 0, fetchOpenseaAssets ''0x1'' 2]
   \<and> currentOffset
       (step button_gallery LoadMoreClick
          (run button_gallery [Fetched 0 [nft 1, nft 2], LoadMoreClick] (mount button_gallery))) = 4
   \<and> requests
       (step button_gallery LoadMoreClick
          (run button_gallery [Fetched 0 [nft 1, nft 2], LoadMoreClick] (mount button_gallery)))
       = [fetchOpenseaAssets ''0x1'' 0, fetchOpenseaAssets ''0x1'' 2, fetchOpenseaAssets ''0x1'' 4]"
  by (simp add: evaluate button_gallery_def)

text \<open>
  C3, amended. While the loader is shown (from the first render until the first page
  arrives) neither the sentinels nor the manual control are rendered, and a request for
  the next page changes nothing. With infinite scroll (\<open>hasLoadMoreButton\<close> false) and
  pages of at most \<open>OPENSEA_API_OFFSET\<close> items, no request for the next page has an effect
  while a fetch is in flight: every sentinel on the page has fired already. The manual
  control has no in-flight guard: whenever it is rendered, an activation adds the page
  size to the cursor and issues one more request (the name resolution for an ENS owner,
  else the page at the new offset), whether or not a fetch is in flight.
\<close>

theorem next_page_request_while_in_flight:
  "(isLoading w \<longrightarrow> step g LoadMoreClick w = w \<and> step g (InViewChange k v) w = w)
   \<and> (\<not> hasLoadMoreButton g \<and> pages_within g es \<and> in_flight (run g es (mount g)) \<noteq> [] \<longrightarrow>
        step g LoadMoreClick (run g es (mount g)) = run g es (mount g)
        \<and> step g (InViewChange k v) (run g es (mount g)) = run g es (mount g))
   \<and> (loadMoreButton_rendered g w \<and> 0 < OPENSEA_API_OFFSET g \<longrightarrow>
        currentOffset (step g LoadMoreClick w) = currentOffset w + OPENSEA_API_OFFSET g
        \<and> length (in_flight (step g LoadMoreClick w)) = Suc (length (in_flight w))
        \<and> requests (step g LoadMoreClick w)
            = requests w @
              [if isEnsDomain g (ownerAddress g) then resolveEnsDomain (ownerAddress g)
               else page_request (contractAddress g) (devnet g)
                      (currentOffset w + OPENSEA_API_OFFSET g) (ownerAddress g)])"
proof -
  have loading: "isLoading w \<longrightarrow> step g LoadMoreClick w = w \<and> step g (InViewChange k v) w = w"
    by (simp add: step_simps loadMoreButton_rendered_def sentinel_observes_def)
  have scrolling: "step g LoadMoreClick (run g es (mount g)) = run g es (mount g)
        \<and> step g (InViewChange k v) (run g es (mount g)) = run g es (mount g)"
    if "\<not> hasLoadMoreButton g" "pages_within g es" "in_flight (run g es (mount g)) \<noteq> []"
  proof -
    from that(1,2) have "scroll_inv g 0 (run g es (mount g))" by (rule scroll_inv_reachable)
    with that(3) have "\<not> sentinel_observes g (run g es (mount g)) k"
      using no_sentinel_while_in_flight by blast
    with that(1) show ?thesis
      by (simp add: step_simps loadMoreButton_rendered_def)
  qed
  have button: "currentOffset (step g LoadMoreClick w) = currentOffset w + OPENSEA_API_OFFSET g
        \<and> length (in_flight (step g LoadMoreClick w)) = Suc (length (in_flight w))
        \<and> requests (step g LoadMoreClick w)
            = requests w @
              [if isEnsDomain g (ownerAddress g) then resolveEnsDomain (ownerAddress g)
               else page_request (contractAddress g) (devnet g)
                      (currentOffset w + OPENSEA_API_OFFSET g) (ownerAddress g)]"
    if "loadMoreButton_rendered g w" "0 < OPENSEA_API_OFFSET g"
    using that
    by (simp add: step_simps LoadMoreButton_onClick_def setCurrentOffset_def load_effect_def
          loadAssets_def Let_def)
  from loading scrolling button show ?thesis by blast
qed

text \<open>
  In \<open>scroll_gallery\<close> the sentinel at position 1 has fired and the second page is in
  flight: a further report of that sentinel and a click change nothing. In
  \<open>button_gallery\<close> the loader is shown after the first render, and once the first page
  has arrived the control is rendered and a click moves the cursor from 0 to 2.
\<close>

theorem next_page_request_while_in_flight_witness:
  "isLoading (mount button_gallery)
   \<and> step button_gallery LoadMoreClick (mount button_gallery) = mount button_gallery
   \<and> \<not> hasLoadMoreButton scroll_gallery
   \<and> pages_within scroll_gallery [Fetched 0 [nft 1, nft 2], InViewChange 1 True]
   \<and> length (in_flight
        (run scroll_gallery [Fetched 0 [nft 1, nft 2], InViewChange 1 True] (mount scroll_gallery)))
       = 1
   \<and> step scroll_gallery (InViewChange 1 True)
        (run scroll_gallery [Fetched 0 [nft 1, nft 2], InViewChange 1 True] (mount scroll_gallery))
       = run scroll_gallery [Fetched 0 [nft 1, nft 2], InViewChange 1 True] (mount scroll_gallery)
   \<and> loadMoreButton_rendered button_gallery
        (run button_gallery [Fetched 0 [nft 1, nft 2]] (mount button_gallery))
   \<and> currentOffset
        (step button_gallery LoadMoreClick
           (run button_gallery [Fetched 0 [nft 1, nft 2]] (mount button_gallery))) = 2"
proof -
  let ?es = "[Fetched 0 [nft 1, nft 2], InViewChange 1 True]"
  let ?w = "run button_gallery [Fetched 0 [nft 1, nft 2]] (mount button_gallery)"
  have loading: "isLoading (mount button_gallery)"
    by (simp add: evaluate button_gallery_def)
  have scroll: "\<not> hasLoadMoreButton scroll_gallery"
    by (simp add: scroll_gallery_def button_gallery_def)
  have bounded: "pages_within scroll_gallery ?es"
    by (simp add: pages_within_def scroll_gallery_def button_gallery_def)
  have one: "length (in_flight (run scroll_gallery ?es (mount scroll_gallery))) = 1"
    by (simp add: evaluate scroll_gallery_def button_gallery_def)
  then have busy: "in_flight (run scroll_gallery ?es (mount scroll_gallery)) \<noteq> []"
    by auto
  have rendered: "loadMoreButton_rendered button_gallery ?w"
    by (simp add: evaluate button_gallery_def)
  have size: "0 < OPENSEA_API_OFFSET button_gallery"
    by (simp add: button_gallery_def)
  have start: "currentOffset ?w = 0" "OPENSEA_API_OFFSET button_gallery = 2"
    by (simp_all add: evaluate button_gallery_def)
  from next_page_request_while_in_flight
         [where w = "mount button_gallery" and g = button_gallery and es = "[]"] loading
  have a: "step button_gallery LoadMoreClick (mount button_gallery) = mount button_gallery"
    by blast
  from next_page_request_while_in_flight
         [where g = scroll_gallery and es = ?es and k = 1 and v = True] scroll bounded busy
  have b: "step scroll_gallery (InViewChange 1 True) (run scroll_gallery ?es (mount scroll_gallery))
      = run scroll_gallery ?es (mount scroll_gallery)"
    by blast
  from next_page_request_while_in_flight
         [where w = ?w and g = button_gallery and es = "[]"] rendered size
  have "currentOffset (step button_gallery LoadMoreClick ?w)
      = currentOffset ?w + OPENSEA_API_OFFSET button_gallery"
    by blast
  then have c: "currentOffset (step button_gallery LoadMoreClick ?w) = 2"
    by (simp only: start)
  from loading a scroll bounded one b rendered c show ?thesis
    by (intro conjI)
qed

subsection \<open>C4: after a short page\<close>

text \<open>
  C4, as the claim states it, fails. In \<open>button_gallery\<close> the control is activated twice
  before either page comes back (\<open>double_click\<close>). The fetch at offset 4 returns the empty
  page first, which clears \<open>canLoadMore\<close>; then the fetch at offset 2 returns a full page,
  which sets it again. The control is rendered once more, and an activation issues a
  request at offset 6.
\<close>

theorem full_page_after_short_page_counterexample:
  "awaits_fetch (run button_gallery double_click (mount button_gallery)) 1
   \<and> \<not> canLoadMore (run button_gallery (double_click @ [Fetched 1 []]) (mount button_gallery))
   \<and> requests (run button_gallery (double_click @ [Fetched 1 []]) (mount button_gallery))
       = [fetchOpenseaAssets ''0x1'' 0, fetchOpenseaAssets ''0x1'' 2, fetchOpenseaAssets ''0x1'' 4]
   \<and> canLoadMore
        (run button_gallery (double_click @ [Fetched 1 [], Fetched 0 [nft 3, nft 4]])
           (mount button_gallery))
   \<and> requests
        (run button_gallery
           (double_click @ [Fetched 1 [], Fetched 0 [nft 3, nft 4], LoadMoreClick])
           (mount button_gallery))
       = [fetchOpenseaAssets ''0x1'' 0, fetchOpenseaAssets ''0x1'' 2, fetchOpenseaAssets ''0x1'' 4,
          fetchOpenseaAssets ''0x1'' 6]"
  by (simp add: double_click_def evaluate button_gallery_def)

text \<open>
  C4, amended. Once a fetch has returned fewer items than \<open>OPENSEA_API_OFFSET\<close> while no
  other fetch is in flight, no later event changes the accumulated list, the cursor, the
  has-more flag or the list of requests issued: a request for the next page, from a
  sentinel or from the manual control, issues no fetch, however often it is raised. With
  infinite scroll (\<open>hasLoadMoreButton\<close> false) and pages of at most \<open>OPENSEA_API_OFFSET\<close>
  items no other fetch is ever in flight, so the statement holds after every short page.
  With the manual control a fetch that is still in flight may return a full page later,
  which shows the control again.
\<close>

theorem exhausted_gallery_issues_no_fetch:
  assumes short: "awaits_fetch w i" "length p < OPENSEA_API_OFFSET g"
    and alone: "(hasLoadMoreButton g \<and> length (in_flight w) = 1)
        \<or> (\<not> hasLoadMoreButton g \<and> w = run g before (mount g) \<and> pages_within g before)"
  shows "paging (run g es (step g (Fetched i p) w)) = paging (step g (Fetched i p) w)
       \<and> \<not> canLoadMore (step g (Fetched i p) w)
       \<and> in_flight (step g (Fetched i p) w) = []"
proof -
  let ?w = "step g (Fetched i p) w"
  from short(1) have i: "i < length (in_flight w)" by (simp add: awaits_fetch_def)
  have w': "?w = loadAssets_fetched g (in_flight w ! i) p (settle i w)"
    using short(1) by (simp add: step_simps)
  have flag: "\<not> canLoadMore ?w"
    using short(2) by (simp add: w' loadAssets_fetched_def Let_def showcase_effect_fields)
  have rest: "in_flight ?w = in_flight (settle i w)"
    by (simp add: w' loadAssets_fetched_def Let_def showcase_effect_fields)
  from short(2) have m: "0 < OPENSEA_API_OFFSET g" by simp
  have one: "length (in_flight w) = 1"
  proof (cases "hasLoadMoreButton g")
    case True
    with alone show ?thesis by simp
  next
    case False
    with alone have "scroll_inv g 0 w" by (simp add: scroll_inv_reachable)
    from one_fetch_at_a_time [OF this m] i show ?thesis by simp
  qed
  have inv: "\<not> hasLoadMoreButton g \<longrightarrow> scroll_inv g 1 ?w"
  proof
    assume "\<not> hasLoadMoreButton g"
    with alone have "scroll_inv g 0 w" by (simp add: scroll_inv_reachable)
    moreover from short(2) have "length p + 1 \<le> OPENSEA_API_OFFSET g + 0" by simp
    ultimately show "scroll_inv g 1 ?w"
      unfolding w' using i by (intro scroll_inv_fetched)
  qed
  from one length_settle [OF i] have "length (in_flight (settle i w)) = 0" by linarith
  with rest have idle: "in_flight ?w = []" by simp
  have "(hasLoadMoreButton g \<and> \<not> canLoadMore ?w) \<or> (\<not> hasLoadMoreButton g \<and> scroll_inv g 1 ?w)"
    using flag inv by blast
  with idle have "paging (run g es ?w) = paging ?w" by (rule exhausted_run)
  with flag idle show ?thesis by simp
qed

text \<open>
  \<open>scroll_gallery\<close>: two items, the sentinel fires, the second page has one item. Further
  sentinel reports and clicks leave the cursor at 2 and the requests at two.
  \<open>button_gallery\<close>: two items, one click, and the second page, the only one in flight,
  has one item. Further clicks issue nothing.
\<close>

theorem exhausted_gallery_issues_no_fetch_witness:
  "awaits_fetch
     (run scroll_gallery [Fetched 0 [nft 1, nft 2], InViewChange 1 True] (mount scroll_gallery)) 0
   \<and> length [nft 3] < OPENSEA_API_OFFSET scroll_gallery
   \<and> \<not> hasLoadMoreButton scroll_gallery
   \<and> pages_within scroll_gallery [Fetched 0 [nft 1, nft 2], InViewChange 1 True]
   \<and> requests
        (run scroll_gallery [InViewChange 1 True, LoadMoreClick, InViewChange 3 True]
           (step scroll_gallery (Fetched 0 [nft 3])
              (run scroll_gallery [Fetched 0 [nft 1, nft 2], InViewChange 1 True]
                 (mount scroll_gallery))))
       = [fetchOpenseaAssets ''0x1'' 0, fetchOpenseaAssets ''0x1'' 2]
   \<and> currentOffset
        (run scroll_gallery [InViewChange 1 True, LoadMoreClick, InViewChange 3 True]
           (step scroll_gallery (Fetched 0 [nft 3])
              (run scroll_gallery [Fetched 0 [nft 1, nft 2], InViewChange 1 True]
                 (mount scroll_gallery))))
       = 2
   \<and> hasLoadMoreButton button_gallery
   \<and> awaits_fetch
        (run button_gallery [Fetched 0 [nft 1, nft 2], LoadMoreClick] (mount button_gallery)) 0
   \<and> length (in_flight
        (run button_gallery [Fetched 0 [nft 1, nft 2], LoadMoreClick] (mount button_gallery))) = 1
   \<and> requests
        (run button_gallery [LoadMoreClick, LoadMoreClick]
           (step button_gallery (Fetched 0 [nft 3])
              (run button_gallery [Fetched 0 [nft 1, nft 2], LoadMoreClick]
                 (mount button_gallery))))
       = [fetchOpenseaAssets ''0x1'' 0, fetchOpenseaAssets ''0x1'' 2]"
proof -
  let ?v = "run button_gallery [Fetched 0 [nft 1, nft 2], LoadMoreClick] (mount button_gallery)"
  let ?v' = "step button_gallery (Fetched 0 [nft 3]) ?v"
  have button: "hasLoadMoreButton button_gallery"
    and short': "length [nft 3] < OPENSEA_API_OFFSET button_gallery"
    by (simp_all add: button_gallery_def)
  have waits': "awaits_fetch ?v 0" and only: "length (in_flight ?v) = 1"
    by (simp_all add: evaluate button_gallery_def)
  have "paging (run button_gallery [LoadMoreClick, LoadMoreClick] ?v') = paging ?v'"
    using exhausted_gallery_issues_no_fetch
            [where w = ?v and i = 0 and p = "[nft 3]" and g = button_gallery
               and es = "[LoadMoreClick, LoadMoreClick]", OF waits' short']
      button only by blast
  then have "requests (run button_gallery [LoadMoreClick, LoadMoreClick] ?v') = requests ?v'"
    by (simp add: paging_def)
  moreover have "requests ?v' = [fetchOpenseaAssets ''0x1'' 0, fetchOpenseaAssets ''0x1'' 2]"
    by (simp add: evaluate button_gallery_def)
  ultimately have manual: "requests (run button_gallery [LoadMoreClick, LoadMoreClick] ?v')
      = [fetchOpenseaAssets ''0x1'' 0, fetchOpenseaAssets ''0x1'' 2]"
    by (simp only:)
  let ?before = "[Fetched 0 [nft 1, nft 2], InViewChange 1 True]"
  let ?es = "[InViewChange 1 True, LoadMoreClick, InViewChange 3 True]"
  let ?w = "run scroll_gallery ?before (mount scroll_gallery)"
  let ?w' = "step scroll_gallery (Fetched 0 [nft 3]) ?w"
  have waits: "awaits_fetch ?w 0"
    by (simp add: evaluate scroll_gallery_def button_gallery_def)
  have short: "length [nft 3] < OPENSEA_API_OFFSET scroll_gallery"
    by (simp add: scroll_gallery_def button_gallery_def)
  have scroll: "\<not> hasLoadMoreButton scroll_gallery"
    by (simp add: scroll_gallery_def button_gallery_def)
  have bounded: "pages_within scroll_gallery ?before"
    by (simp add: pages_within_def scroll_gallery_def button_gallery_def)
  have "paging (run scroll_gallery ?es ?w') = paging ?w'"
    using exhausted_gallery_issues_no_fetch
            [where w = ?w and i = 0 and p = "[nft 3]" and g = scroll_gallery and before = ?before
               and es = ?es, OF waits short]
      scroll bounded by blast
  then have same: "requests (run scroll_gallery ?es ?w') = requests ?w'"
      "currentOffset (run scroll_gallery ?es ?w') = currentOffset ?w'"
    by (simp_all add: paging_def)
  have "requests ?w' = [fetchOpenseaAssets ''0x1'' 0, fetchOpenseaAssets ''0x1'' 2]"
      "currentOffset ?w' = 2"
    by (simp_all add: evaluate scroll_gallery_def button_gallery_def)
  with same have "requests (run scroll_gallery ?es ?w')
        = [fetchOpenseaAssets ''0x1'' 0, fetchOpenseaAssets ''0x1'' 2]"
      "currentOffset (run scroll_gallery ?es ?w') = 2"
    by (simp_all only:)
  with waits short scroll bounded show ?thesis
    using button waits' only manual by (intro conjI)
qed

subsection \<open>C5: resolving the owner's name\<close>

lemma page_request_facts:
  "\<not> is_resolve (page_request c d off a)" "request_owner (page_request c d off a) = a"
  by (simp_all add: page_request_def is_resolve_def request_owner_def)

lemma awaiting_name_mount:
  "isEnsDomain g (ownerAddress g) \<Longrightarrow> awaiting_name g (mount g)"
  by (simp add: awaiting_name_def resolving_def mount_def showcase_effect_def load_effect_def
      loadAssets_def initial_def Let_def split: option.splits)

lemma awaiting_name_step:
  assumes "awaiting_name g w" "case e of Resolved i a \<Rightarrow> False | _ \<Rightarrow> True"
  shows "awaiting_name g (step g e w)"
  using assms
  by (cases e)
     (auto simp: awaiting_name_def step_simps awaits_fetch_def resolving_def settle_def
        sentinel_observes_def loadMoreButton_rendered_def handleKeydownEvent_fields)

lemma awaiting_name_run:
  "awaiting_name g w \<Longrightarrow> no_resolution es \<Longrightarrow> awaiting_name g (run g es w)"
  by (induction es arbitrary: w) (simp_all add: no_resolution_def awaiting_name_step)

lemma direct_inv_load_effect:
  "\<not> isEnsDomain g (ownerAddress g) \<Longrightarrow> direct_inv g w \<Longrightarrow>
   direct_inv g (load_effect g (w\<lparr>currentOffset := n\<rparr>))"
  by (auto simp: direct_inv_def load_effect_def loadAssets_def Let_def page_request_facts)

lemma direct_inv_mount: "\<not> isEnsDomain g (ownerAddress g) \<Longrightarrow> direct_inv g (mount g)"
  by (simp add: direct_inv_def mount_def showcase_effect_fields load_effect_def loadAssets_def
      initial_def Let_def page_request_facts)

lemma direct_inv_step:
  assumes "\<not> isEnsDomain g (ownerAddress g)" "direct_inv g w"
  shows "direct_inv g (step g e w)"
proof (cases e)
  case (Resolved i a)
  with assms(2) show ?thesis
    by (auto simp: step_simps awaits_resolve_def direct_inv_def is_resolve_def
          split: request.splits)
next
  case (Fetched i p)
  with assms(2) set_settle [of i w] show ?thesis
    by (auto simp: step_simps direct_inv_def loadAssets_fetched_def Let_def
          showcase_effect_fields settle_fields)
next
  case (Rejected i)
  with assms(2) set_settle [of i w] show ?thesis
    by (auto simp: step_simps direct_inv_def settle_fields)
next
  case (InViewChange k v)
  have t: "direct_inv g (w\<lparr>triggered := t\<rparr>)" for t
    using assms(2) by (simp add: direct_inv_def)
  have "direct_inv g (setCurrentOffset g f (w\<lparr>triggered := t\<rparr>))" for f t
    using direct_inv_load_effect [OF assms(1) t] t
    by (simp add: setCurrentOffset_def)
  with assms(2) t show ?thesis
    by (simp add: InViewChange step_simps InView_onChange_def)
next
  case LoadMoreClick
  have "direct_inv g (setCurrentOffset g f w)" for f
    using direct_inv_load_effect [OF assms] assms(2)
    by (simp add: setCurrentOffset_def)
  with assms(2) show ?thesis
    by (simp add: LoadMoreClick step_simps LoadMoreButton_onClick_def)
next
  case (Keydown key)
  with assms(2) show ?thesis
    by (simp add: step_simps direct_inv_def handleKeydownEvent_fields)
next
  case (SetLightboxIndex n)
  with assms(2) show ?thesis by (simp add: step_simps direct_inv_def)
next
  case (HashChange h)
  with assms(2) show ?thesis by (simp add: step_simps direct_inv_def)
qed

lemma direct_inv_run:
  "\<not> isEnsDomain g (ownerAddress g) \<Longrightarrow> direct_inv g w \<Longrightarrow> direct_inv g (run g es w)"
  by (induction es arbitrary: w) (simp_all add: direct_inv_step)

text \<open>
  C5. For an owner that \<open>isEnsDomain\<close> accepts, the first render issues the name
  resolution and nothing else; whatever happens, no fetch is issued before that promise
  fulfils; and when it fulfils with an address, the first page is requested for that
  address at offset 0 (through the collection call when a contract address is given).
  For any other owner the first render requests the first page for the owner as given,
  and no run ever issues a name resolution or a request for another owner.
\<close>

theorem ens_owner_resolved_before_first_fetch:
  "(isEnsDomain g (ownerAddress g) \<longrightarrow>
      requests (mount g) = [resolveEnsDomain (ownerAddress g)]
      \<and> (no_resolution es \<longrightarrow>
           requests (run g es (mount g)) = [resolveEnsDomain (ownerAddress g)])
      \<and> (no_resolution es \<and> in_flight (run g es (mount g)) \<noteq> [] \<longrightarrow>
           requests (run g (es @ [Resolved 0 resolvedOwner]) (mount g))
             = [resolveEnsDomain (ownerAddress g),
                page_request (contractAddress g) (devnet g) 0 resolvedOwner]))
   \<and> (\<not> isEnsDomain g (ownerAddress g) \<longrightarrow>
      requests (mount g) = [page_request (contractAddress g) (devnet g) 0 (ownerAddress g)]
      \<and> (\<forall>r \<in> set (requests (run g es (mount g))).
            \<not> is_resolve r \<and> request_owner r = ownerAddress g))"
proof (cases "isEnsDomain g (ownerAddress g)")
  case True
  then have m: "awaiting_name g (mount g)"
    by (rule awaiting_name_mount)
  have first: "requests (mount g) = [resolveEnsDomain (ownerAddress g)]"
    using m by (simp add: awaiting_name_def)
  have waiting: "awaiting_name g (run g es (mount g))" if "no_resolution es"
    using m that by (rule awaiting_name_run)
  have "requests (run g (es @ [Resolved 0 resolvedOwner]) (mount g))
      = [resolveEnsDomain (ownerAddress g),
         page_request (contractAddress g) (devnet g) 0 resolvedOwner]"
    if "no_resolution es" "in_flight (run g es (mount g)) \<noteq> []"
    using waiting [OF that(1)] that(2)
    by (simp add: run_append step_simps awaiting_name_def awaits_resolve_def resolving_def
          loadAssets_resolved_def Let_def)
  with True first waiting show ?thesis
    by (simp add: awaiting_name_def)
next
  case False
  then have "direct_inv g (run g es (mount g))"
    by (intro direct_inv_run direct_inv_mount)
  moreover have "requests (mount g) = [page_request (contractAddress g) (devnet g) 0 (ownerAddress g)]"
    using False
    by (simp add: mount_def showcase_effect_fields load_effect_def loadAssets_def initial_def Let_def)
  ultimately show ?thesis
    using False by (simp add: direct_inv_def)
qed

text \<open>
  The owner \<open>vitalik.eth\<close>: the resolution is issued first, a click in between does
  nothing, and the page is requested for the resolved address at offset 0. The owner
  \<open>0x1\<close> is used as it is.
\<close>

theorem ens_owner_resolved_before_first_fetch_witness:
  "isEnsDomain ens_gallery (ownerAddress ens_gallery)
   \<and> no_resolution [LoadMoreClick]
   \<and> in_flight (run ens_gallery [LoadMoreClick] (mount ens_gallery)) \<noteq> []
   \<and> requests (run ens_gallery [LoadMoreClick] (mount ens_gallery))
       = [resolveEnsDomain ''vitalik.eth'']
   \<and> requests (run ens_gallery ([LoadMoreClick] @ [Resolved 0 ''0xd8da'']) (mount ens_gallery))
       = [resolveEnsDomain ''vitalik.eth'', fetchOpenseaAssets ''0xd8da'' 0]
   \<and> \<not> isEnsDomain scroll_gallery (ownerAddress scroll_gallery)
   \<and> requests (mount scroll_gallery) = [fetchOpenseaAssets ''0x1'' 0]"
proof -
  have ens: "isEnsDomain ens_gallery (ownerAddress ens_gallery)"
    by (simp add: examples)
  have quiet: "no_resolution [LoadMoreClick]"
    by (simp add: no_resolution_def)
  have busy: "in_flight (run ens_gallery [LoadMoreClick] (mount ens_gallery)) \<noteq> []"
    by (simp add: evaluate examples)
  have plain: "\<not> isEnsDomain scroll_gallery (ownerAddress scroll_gallery)"
    by (simp add: examples)
  have names: "ownerAddress ens_gallery = ''vitalik.eth''"
    "page_request (contractAddress ens_gallery) (devnet ens_gallery) 0 ''0xd8da''
       = fetchOpenseaAssets ''0xd8da'' 0"
    "page_request (contractAddress scroll_gallery) (devnet scroll_gallery) 0
       (ownerAddress scroll_gallery) = fetchOpenseaAssets ''0x1'' 0"
    by (simp_all add: examples page_request_def)
  from ens_owner_resolved_before_first_fetch
         [where g = ens_gallery and es = "[LoadMoreClick]" and resolvedOwner = "''0xd8da''"]
       ens quiet busy
  have a: "requests (run ens_gallery [LoadMoreClick] (mount ens_gallery))
        = [resolveEnsDomain (ownerAddress ens_gallery)]"
    and b: "requests (run ens_gallery ([LoadMoreClick] @ [Resolved 0 ''0xd8da'']) (mount ens_gallery))
        = [resolveEnsDomain (ownerAddress ens_gallery),
           page_request (contractAddress ens_gallery) (devnet ens_gallery) 0 ''0xd8da'']"
    by blast+
  from ens_owner_resolved_before_first_fetch [where g = scroll_gallery and es = "[]"] plain
  have c: "requests (mount scroll_gallery)
        = [page_request (contractAddress scroll_gallery) (devnet scroll_gallery) 0
             (ownerAddress scroll_gallery)]"
    by blast
  from a b c have "requests (run ens_gallery [LoadMoreClick] (mount ens_gallery))
        = [resolveEnsDomain ''vitalik.eth'']"
      "requests (run ens_gallery ([LoadMoreClick] @ [Resolved 0 ''0xd8da'']) (mount ens_gallery))
        = [resolveEnsDomain ''vitalik.eth'', fetchOpenseaAssets ''0xd8da'' 0]"
      "requests (mount scroll_gallery) = [fetchOpenseaAssets ''0x1'' 0]"
    by (simp_all only: names)
  with ens quiet busy plain show ?thesis
    by (intro conjI)
qed

subsection \<open>C6: a failed fetch\<close>




subsection \<open>C7 and C8: showcase mode\<close>

lemma showcaseAssets_step:
  "showcaseAssets w = showcase_of g (assets w) \<Longrightarrow>
   showcaseAssets (step g e w) = showcase_of g (assets (step g e w))"
  by (cases e)
     (auto simp: step_parts showcase_effect_def updateShowcaseAssets_def showcase_of_def
        split: option.splits)

lemma showcaseAssets_run:
  "showcaseAssets w = showcase_of g (assets w) \<Longrightarrow>
   showcaseAssets (run g es w) = showcase_of g (assets (run g es w))"
  by (induction es arbitrary: w) (simp_all add: showcaseAssets_step)

lemma showcaseAssets_mount: "showcaseAssets (mount g) = showcase_of g (assets (mount g))"
  by (simp add: assets_mount)
     (simp add: mount_def showcase_effect_def load_effect_def loadAssets_fields initial_def
        showcase_of_def split: option.splits)

lemma showcaseAssets_reachable:
  "showcaseAssets (run g es (mount g)) = showcase_of g (assets (run g es (mount g)))"
  by (rule showcaseAssets_run) (rule showcaseAssets_mount)

text \<open>
  C7. \<open>updateShowcaseAssets\<close> stores exactly the assets of the given list whose key
  \<open>address/tokenId\<close> is on the allow-list, at the positions and in the order they have in
  the list. The result depends on the allow-list as a set only (its order and repetitions
  do not matter), running it again changes nothing, and it writes no field but
  \<open>showcaseAssets\<close>: the accumulated list, the cursor and the requests stay as they are.
  In a gallery in showcase mode with an allow-list, the displayed list is that filter of
  the accumulated list after every run.
\<close>

theorem showcase_filter_is_ordered_subsequence:
  "showcaseAssets (updateShowcaseAssets allAssets itemIds w)
     = nths allAssets {i. i < length allAssets \<and>
         asset_contract_address (allAssets ! i) @ ''/'' @ token_id (allAssets ! i) \<in> set itemIds}
   \<and> subseq (showcaseAssets (updateShowcaseAssets allAssets itemIds w)) allAssets
   \<and> (set itemIds' = set itemIds \<longrightarrow>
        updateShowcaseAssets allAssets itemIds' w = updateShowcaseAssets allAssets itemIds w)
   \<and> updateShowcaseAssets allAssets itemIds (updateShowcaseAssets allAssets itemIds w)
        = updateShowcaseAssets allAssets itemIds w
   \<and> updateShowcaseAssets allAssets itemIds w
        = w\<lparr>showcaseAssets := showcaseAssets (updateShowcaseAssets allAssets itemIds w)\<rparr>
   \<and> (showcaseMode g \<and> showcaseItemIds g = Some itemIds \<longrightarrow>
        displayedAssets g (run g es (mount g))
          = filter (\<lambda>asset. asset_contract_address asset @ ''/'' @ token_id asset \<in> set itemIds)
              (assets (run g es (mount g))))"
proof -
  let ?listed = "\<lambda>asset. asset_contract_address asset @ ''/'' @ token_id asset \<in> set itemIds"
  have out: "showcaseAssets (updateShowcaseAssets allAssets itemIds w) = filter ?listed allAssets"
    by (simp add: updateShowcaseAssets_def)
  have picks: "filter ?listed allAssets
      = nths allAssets {i. i < length allAssets \<and> ?listed (allAssets ! i)}"
    by (rule filter_eq_nths)
  have ordered: "subseq (filter ?listed allAssets) allAssets"
    by (rule subseq_filter_left)
  have as_set: "set itemIds' = set itemIds \<longrightarrow>
      updateShowcaseAssets allAssets itemIds' w = updateShowcaseAssets allAssets itemIds w"
    by (simp add: updateShowcaseAssets_def)
  have again: "updateShowcaseAssets allAssets itemIds (updateShowcaseAssets allAssets itemIds w)
      = updateShowcaseAssets allAssets itemIds w"
    by (simp add: updateShowcaseAssets_def)
  have frame: "updateShowcaseAssets allAssets itemIds w
      = w\<lparr>showcaseAssets := showcaseAssets (updateShowcaseAssets allAssets itemIds w)\<rparr>"
    by (simp add: updateShowcaseAssets_def)
  have shown: "showcaseMode g \<and> showcaseItemIds g = Some itemIds \<longrightarrow>
      displayedAssets g (run g es (mount g)) = filter ?listed (assets (run g es (mount g)))"
    by (simp add: displayedAssets_def showcaseAssets_reachable showcase_of_def)
  from out picks ordered as_set again frame shown show ?thesis
    by (simp only: simp_thms)
qed

text \<open>
  Showcase mode with the allow-list \<open>0xabc/1\<close>, and a page with the keys \<open>0xabc/1\<close> and
  \<open>0xabc/2\<close>: the first asset is displayed, the second is not.
\<close>

theorem showcase_filter_is_ordered_subsequence_witness:
  "showcaseMode showcase_gallery \<and> showcaseItemIds showcase_gallery = Some [''0xabc/1'']
   \<and> set [''0xabc/1'', ''0xabc/1''] = set [''0xabc/1'']
   \<and> assets (run showcase_gallery [Fetched 0 [nft 1, nft 2]] (mount showcase_gallery))
       = [nft 1, nft 2]
   \<and> displayedAssets showcase_gallery
        (run showcase_gallery [Fetched 0 [nft 1, nft 2]] (mount showcase_gallery))
       = [nft 1]
   \<and> updateShowcaseAssets [nft 1, nft 2] [''0xabc/1'', ''0xabc/1''] initial
       = updateShowcaseAssets [nft 1, nft 2] [''0xabc/1''] initial"
proof -
  let ?w = "run showcase_gallery [Fetched 0 [nft 1, nft 2]] (mount showcase_gallery)"
  have mode: "showcaseMode showcase_gallery" "showcaseItemIds showcase_gallery = Some [''0xabc/1'']"
    by (simp_all add: examples)
  have same: "set [''0xabc/1'', ''0xabc/1''] = set [''0xabc/1'']"
    by simp
  have list: "assets ?w = [nft 1, nft 2]"
    by (simp add: evaluate examples)
  have keep: "filter (\<lambda>asset. asset_contract_address asset @ ''/'' @ token_id asset
                  \<in> set [''0xabc/1'']) [nft 1, nft 2] = [nft 1]"
    by (simp add: examples)
  from showcase_filter_is_ordered_subsequence
         [where g = showcase_gallery and itemIds = "[''0xabc/1'']"
            and itemIds' = "[''0xabc/1'', ''0xabc/1'']" and es = "[Fetched 0 [nft 1, nft 2]]"
            and allAssets = "[nft 1, nft 2]" and w = initial]
       mode same
  have shown: "displayedAssets showcase_gallery ?w
        = filter (\<lambda>asset. asset_contract_address asset @ ''/'' @ token_id asset
                    \<in> set [''0xabc/1'']) (assets ?w)"
    and dup: "updateShowcaseAssets [nft 1, nft 2] [''0xabc/1'', ''0xabc/1''] initial
        = updateShowcaseAssets [nft 1, nft 2] [''0xabc/1''] initial"
    by blast+
  from shown have "displayedAssets showcase_gallery ?w = [nft 1]"
    by (simp only: list keep)
  with mode same list dup show ?thesis
    by (intro conjI)
qed

text \<open>
  C8. In a gallery in showcase mode to which no allow-list was passed, the displayed list
  is empty after every run, whatever has been accumulated: the showcase effect never
  writes \<open>showcaseAssets\<close>, which starts empty, and the accumulated list is not displayed
  in its place.
\<close>

theorem showcase_without_ids_displays_nothing:
  "showcaseMode g \<and> showcaseItemIds g = None \<longrightarrow> displayedAssets g (run g es (mount g)) = []"
  by (simp add: displayedAssets_def showcaseAssets_reachable showcase_of_def)

theorem showcase_without_ids_displays_nothing_witness:
  "showcaseMode bare_showcase_gallery \<and> showcaseItemIds bare_showcase_gallery = None
   \<and> assets (run bare_showcase_gallery [Fetched 0 [nft 1, nft 2]] (mount bare_showcase_gallery))
       = [nft 1, nft 2]
   \<and> displayedAssets bare_showcase_gallery
        (run bare_showcase_gallery [Fetched 0 [nft 1, nft 2]] (mount bare_showcase_gallery)) = []"
proof -
  have mode: "showcaseMode bare_showcase_gallery \<and> showcaseItemIds bare_showcase_gallery = None"
    by (simp add: examples)
  have list: "assets (run bare_showcase_gallery [Fetched 0 [nft 1, nft 2]] (mount bare_showcase_gallery))
      = [nft 1, nft 2]"
    by (simp add: evaluate examples)
  from showcase_without_ids_displays_nothing
         [where g = bare_showcase_gallery and es = "[Fetched 0 [nft 1, nft 2]]"] mode
  have "displayedAssets bare_showcase_gallery
        (run bare_showcase_gallery [Fetched 0 [nft 1, nft 2]] (mount bare_showcase_gallery)) = []"
    by blast
  with mode list show ?thesis
    by blast
qed

subsection \<open>C9 and C10: the lightbox keys\<close>

text \<open>
  The bound that \<open>increaseLightboxIndex\<close> checks is the last position of the accumulated
  list. An index within the accumulated list stays there under every key, and the keys
  do nothing at the two ends.
\<close>

lemma keydown_index_within_accumulated:
  assumes "0 \<le> lightboxIndex w" "lightboxIndex w < int (length (assets w))"
  shows "0 \<le> lightboxIndex (handleKeydownEvent key w)
       \<and> lightboxIndex (handleKeydownEvent key w) < int (length (assets (handleKeydownEvent key w)))"
  using assms
  by (auto simp: handleKeydownEvent_def decreaseLightboxIndex_def increaseLightboxIndex_def Let_def)

lemma keys_keep_index_within_accumulated:
  assumes "0 \<le> lightboxIndex w" "lightboxIndex w < int (length (assets w))"
  shows "0 \<le> lightboxIndex (run g (map Keydown keys) w)
       \<and> lightboxIndex (run g (map Keydown keys) w)
           < int (length (assets (run g (map Keydown keys) w)))"
  using assms
  by (induction keys arbitrary: w) (simp_all add: step_simps keydown_index_within_accumulated)

lemma keydown_at_the_ends:
  "lightboxIndex w = 0 \<Longrightarrow> handleKeydownEvent ''ArrowLeft'' w = w"
  "lightboxIndex w = int (length (assets w)) - 1 \<Longrightarrow> handleKeydownEvent ''ArrowRight'' w = w"
  by (simp_all add: handleKeydownEvent_def decreaseLightboxIndex_def increaseLightboxIndex_def)

text \<open>
  C9 does not hold of the displayed list. In showcase mode the handler still compares the
  index with the length of the accumulated list. In \<open>showcase_lightbox\<close> two assets are
  accumulated, one is displayed and it is open at index 0, the last position of the
  displayed list; the right arrow moves the index to 1, where nothing is displayed.
\<close>

theorem lightbox_next_passes_last_showcased_item:
  "displayedAssets showcase_gallery showcase_lightbox = [nft 1]
   \<and> assets showcase_lightbox = [nft 1, nft 2]
   \<and> lightboxIndex showcase_lightbox = 0
   \<and> location_hash showcase_lightbox = ''#lightbox-0''
   \<and> lightboxIndex (step showcase_gallery (Keydown ''ArrowRight'') showcase_lightbox) = 1
   \<and> location_hash (step showcase_gallery (Keydown ''ArrowRight'') showcase_lightbox)
       = ''#lightbox-1''"
  by (simp add: showcase_lightbox_def evaluate examples)





end
